theory Spec2Isabelle
  imports Main "HOL-Library.Sublist" "HOL-Library.Multiset"
begin

section \<open>JavaScript values\<close>

text \<open>
  The values that travel through the two programs. A promise object is a reference to the
  deferred whose \<open>promise\<close> field it is (\<open>VPromise d\<close>); it is the only value of the
  model that has a \<open>then\<close> method. A function that a coroutine yields is a thunk
  (\<open>VFun name err res\<close>): called with a completion callback it starts an asynchronous
  operation which later reports \<open>(err, res)\<close> to that callback.
\<close>

datatype val =
    VUndefined
  | VNull
  | VBool bool
  | VNum int
  | VStr string
  | VErr string
  | VPromise nat
  | VFun nat val val
  | VArr "val list"

text \<open>JavaScript truthiness, as \<open>if (x)\<close>, \<open>x && y\<close> and \<open>x || y\<close> test it.\<close>

fun truthy :: "val \<Rightarrow> bool" where
  "truthy VUndefined = False"
| "truthy VNull = False"
| "truthy (VBool b) = b"
| "truthy (VNum n) = (n \<noteq> 0)"
| "truthy (VStr s) = (s \<noteq> [])"
| "truthy v = True"

section \<open>The deferred/promise engine (src/promise.js, lines 872-951)\<close>

text \<open>
  What a call of a handler does, as far as the engine can see: it returns a value or it
  throws one.
\<close>

datatype completion = Returns val | Throws val

text \<open>
  The functions that \<open>then\<close> receives as \<open>_callback\<close> and \<open>_errback\<close>:
  \<^item> \<open>UserFn name body\<close>: a handler of the caller, with a name under which its calls are
    recorded; a handler is what it returns or throws for each argument, and touches the
    engine in no other way;
  \<^item> \<open>FwdResolve d\<close>: \<open>function(res) { deferred.resolve(res); }\<close> of \<open>Resolve\<close>;
  \<^item> \<open>FwdReject d\<close>: \<open>function(err) { deferred.reject(err); }\<close> of \<open>Resolve\<close>;
  \<^item> \<open>Rethrow\<close>: the default \<open>function(err) { throw err; }\<close> of \<open>then\<close>.
\<close>

datatype fn =
    UserFn nat "val \<Rightarrow> completion"
  | FwdResolve nat
  | FwdReject nat
  | Rethrow

text \<open>
  The closure variables \<open>callback\<close> and \<open>errback\<close> of one \<open>defer()\<close> call. Each closure
  that \<open>then\<close> stores there captures the handler and \<open>nextDeferred\<close>.
\<close>

record slot =
  callback :: "(fn \<times> nat) option"
  errback :: "(fn \<times> nat) option"

text \<open>The observation \<open>Called name v\<close>: the handler \<open>name\<close> was invoked with \<open>v\<close>.\<close>

datatype event = Called nat val

record pstate =
  slots :: "slot list"
  trace :: "event list"

datatype fault = OutOfFuel | DanglingRef nat

text \<open>
  Faults of the model itself, not of the program: the recursion of \<open>resolve\<close> and
  \<open>reject\<close> follows references through the store and need not end (a forwarder may point
  back at its own deferred), so it carries fuel; and a reference outside the store is refused.
\<close>

definition empty_slot :: slot where
  "empty_slot = \<lparr>callback = None, errback = None\<rparr>"

definition init_pstate :: pstate where
  "init_pstate = \<lparr>slots = [], trace = []\<rparr>"

text \<open>\<open>defer()\<close>: a new deferred with both closure variables undefined.\<close>

definition defer_d :: "pstate \<Rightarrow> nat \<times> pstate" where
  "defer_d st = (length (slots st), st\<lparr>slots := slots st @ [empty_slot]\<rparr>)"

text \<open>\<open>_errback = _errback || function(err) { throw err; }\<close>\<close>

definition default_errback :: "fn option \<Rightarrow> fn" where
  "default_errback eb = (case eb of None \<Rightarrow> Rethrow | Some f \<Rightarrow> f)"

text \<open>
  \<open>promise.then(_callback, _errback)\<close> on the promise of deferred \<open>d\<close>: creates
  \<open>nextDeferred\<close>, overwrites both closure variables of \<open>d\<close> and returns the promise of
  \<open>nextDeferred\<close>. It calls no handler.
\<close>

definition then_p :: "nat \<Rightarrow> fn \<Rightarrow> fn option \<Rightarrow> pstate \<Rightarrow> fault + (nat \<times> pstate)" where
  "then_p d cb eb st =
     (if d < length (slots st) then
        (let (n, st1) = defer_d st
         in Inr (n, st1\<lparr>slots := (slots st1)
                   [d := \<lparr>callback = Some (cb, n),
                          errback = Some (default_errback eb, n)\<rparr>]\<rparr>))
      else Inl (DanglingRef d))"

text \<open>\<open>value && 'function' == typeof value.then\<close>\<close>

definition thenable :: "val \<Rightarrow> nat option" where
  "thenable v = (if truthy v then (case v of VPromise x \<Rightarrow> Some x | _ \<Rightarrow> None) else None)"

text \<open>
  \<open>resolve\<close> and \<open>reject\<close> of a deferred, the two closures that \<open>then\<close> stores
  (\<open>call_fn\<close> runs the captured handler inside their \<open>try\<close>), and the function
  \<open>Resolve\<close>, whose last line is \<open>deferred.resolve(null, value)\<close>: \<open>resolve\<close> has the
  single parameter \<open>res\<close>, which therefore receives \<open>null\<close>.
\<close>

function (sequential) resolve :: "nat \<Rightarrow> nat \<Rightarrow> val \<Rightarrow> pstate \<Rightarrow> fault + pstate"
  and reject :: "nat \<Rightarrow> nat \<Rightarrow> val \<Rightarrow> pstate \<Rightarrow> fault + pstate"
  and call_fn :: "nat \<Rightarrow> fn \<Rightarrow> val \<Rightarrow> pstate \<Rightarrow> fault + (completion \<times> pstate)"
  and Resolve :: "nat \<Rightarrow> nat \<Rightarrow> val \<Rightarrow> pstate \<Rightarrow> fault + pstate"
where
  "resolve 0 d res st = Inl OutOfFuel"
| "resolve (Suc k) d res st =
     (if d < length (slots st) then
        (case callback (slots st ! d) of
           None \<Rightarrow> Inr st
         | Some (f, n) \<Rightarrow>
             (case call_fn k f res st of
                Inl x \<Rightarrow> Inl x
              | Inr (Throws err, st') \<Rightarrow> reject k n err st'
              | Inr (Returns r, st') \<Rightarrow> Resolve k n r st'))
      else Inl (DanglingRef d))"
| "reject 0 d err st = Inl OutOfFuel"
| "reject (Suc k) d err st =
     (if d < length (slots st) then
        (case errback (slots st ! d) of
           None \<Rightarrow> Inr st
         | Some (f, n) \<Rightarrow>
             (case call_fn k f err st of
                Inl x \<Rightarrow> Inl x
              | Inr (Throws e, st') \<Rightarrow> reject k n e st'
              | Inr (Returns r, st') \<Rightarrow> Inr st'))
      else Inl (DanglingRef d))"
| "call_fn k (UserFn name body) v st =
     Inr (body v, st\<lparr>trace := trace st @ [Called name v]\<rparr>)"
| "call_fn k (FwdResolve d) v st =
     (case resolve k d v st of Inl x \<Rightarrow> Inl x | Inr st' \<Rightarrow> Inr (Returns VUndefined, st'))"
| "call_fn k (FwdReject d) v st =
     (case reject k d v st of Inl x \<Rightarrow> Inl x | Inr st' \<Rightarrow> Inr (Returns VUndefined, st'))"
| "call_fn k Rethrow v st = Inr (Throws v, st)"
| "Resolve k d v st =
     (case thenable v of
        Some x \<Rightarrow>
          (case then_p x (FwdResolve d) (Some (FwdReject d)) st of
             Inl e \<Rightarrow> Inl e
           | Inr (p, st') \<Rightarrow> Inr st')
      | None \<Rightarrow> resolve k d VNull st)"
  by pat_completeness auto
termination
  by (relation "measure (case_sum (case_sum (\<lambda>(k, _). 2 * k) (\<lambda>(k, _). 2 * k))
                                  (case_sum (\<lambda>(k, _). 2 * k + 1) (\<lambda>(k, _). 2 * k + 1)))") auto

text \<open>Building blocks of the scenarios: handlers, sequencing of calls, chains of \<open>then\<close>.\<close>

definition const_handler :: "val \<Rightarrow> val \<Rightarrow> completion" where
  "const_handler r v = Returns r"

definition then_chain :: "nat \<Rightarrow> fn \<Rightarrow> fn \<Rightarrow> fn option \<Rightarrow> pstate \<Rightarrow> fault + pstate" where
  "then_chain d a b eb st =
     (case then_p d a None st of
        Inl x \<Rightarrow> Inl x
      | Inr (p1, st1) \<Rightarrow>
          (case then_p p1 b eb st1 of
             Inl x \<Rightarrow> Inl x
           | Inr (p2, st2) \<Rightarrow> Inr st2))"

definition then1 :: "nat \<Rightarrow> fn \<Rightarrow> fn option \<Rightarrow> pstate \<Rightarrow> fault + pstate" where
  "then1 d a eb st = map_sum id snd (then_p d a eb st)"

definition three_deferreds :: pstate where
  "three_deferreds = snd (defer_d (snd (defer_d (snd (defer_d init_pstate)))))"

definition registered_once :: pstate where
  "registered_once =
     \<lparr>slots = [empty_slot, \<lparr>callback = Some (UserFn 5 Returns, 2), errback = None\<rparr>,
               empty_slot],
      trace = []\<rparr>"

definition one_deferred :: pstate where
  "one_deferred = snd (defer_d init_pstate)"

definition both_throw :: pstate where
  "both_throw =
     \<lparr>slots = [\<lparr>callback = Some (UserFn 0 Throws, 1), errback = Some (UserFn 1 Throws, 1)\<rparr>,
               empty_slot],
      trace = []\<rparr>"

definition both_throw_chained :: pstate where
  "both_throw_chained =
     \<lparr>slots = [\<lparr>callback = Some (UserFn 0 Throws, 1), errback = Some (UserFn 1 Throws, 1)\<rparr>,
               \<lparr>callback = Some (UserFn 2 Returns, 2), errback = Some (UserFn 3 Returns, 2)\<rparr>,
               empty_slot],
      trace = []\<rparr>"

definition and_then :: "fault + pstate \<Rightarrow> (pstate \<Rightarrow> fault + pstate) \<Rightarrow> fault + pstate" where
  "and_then r f = (case r of Inl x \<Rightarrow> Inl x | Inr st \<Rightarrow> f st)"


definition throwing :: "val \<Rightarrow> val \<Rightarrow> completion" where
  "throwing e v = Throws e"

section \<open>The coroutine runner and the thunk aggregator (generator control flow, final version)\<close>

text \<open>
  A generator is a state machine: \<open>step g (Next v)\<close> is \<open>gen.next(v)\<close> and
  \<open>step g (Inject e)\<close> is \<open>gen.throw(e)\<close> on a generator suspended (or not yet started) in
  state \<open>g\<close>. It yields a value and suspends again, returns, or lets an exception escape.
\<close>

datatype inp = Next val | Inject val

datatype 'g gres = Yielded val 'g | Finished val | Raised val

text \<open>
  The two completion callbacks of the program: \<open>RunCb\<close> is the function that \<open>next\<close> passes
  to the thunk, \<open>MemberCb f index\<close> the function that \<open>resolve(thunk, index)\<close> passes to a
  member of the array of the aggregate call \<open>f\<close>.
\<close>

datatype cb = RunCb | MemberCb nat nat

text \<open>An operation in flight: a thunk that was called and has not reported yet.\<close>

record op =
  op_name :: nat
  op_err :: val
  op_res :: val
  op_cb :: cb

text \<open>
  The local variables \<open>pending\<close> and \<open>results\<close> of one call of the function that
  \<open>arrayToThunk\<close> returns. A hole of \<open>new Array(n)\<close> is \<open>VUndefined\<close>. The \<open>done\<close> of such a
  call is always the callback of \<open>next\<close>, its only caller.
\<close>

record frame =
  pending :: int
  results :: "val list"

text \<open>Observations: the calls of \<open>gen.next\<close> and \<open>gen.throw\<close>, and the thunks called.\<close>

datatype revent = GenNext val | GenThrow val | Started nat

record 'g rstate =
  gen :: "'g option"
  inflight :: "op list"
  frames :: "frame list"
  log :: "revent list"

text \<open>\<open>{value: v, done: b}\<close>\<close>

datatype ret = Ret val bool

datatype callable = Plain nat val val | ArrayThunk "val list"

text \<open>
  \<open>gen.next(v)\<close> and \<open>gen.throw(e)\<close>; \<open>gen = None\<close> is a generator that has completed:
  \<open>next\<close> then gives \<open>{value: undefined, done: true}\<close> and \<open>throw\<close> throws its argument.
  \<open>Inl e\<close> is the exception \<open>e\<close> leaving the call.
\<close>

definition gen_next :: "('g \<Rightarrow> inp \<Rightarrow> 'g gres) \<Rightarrow> val \<Rightarrow> 'g rstate \<Rightarrow> (val + ret) \<times> 'g rstate" where
  "gen_next step v st =
     (let st1 = st\<lparr>log := log st @ [GenNext v]\<rparr>
      in case gen st1 of
           None \<Rightarrow> (Inr (Ret VUndefined True), st1)
         | Some g \<Rightarrow>
             (case step g (Next v) of
                Yielded w g' \<Rightarrow> (Inr (Ret w False), st1\<lparr>gen := Some g'\<rparr>)
              | Finished w \<Rightarrow> (Inr (Ret w True), st1\<lparr>gen := None\<rparr>)
              | Raised e \<Rightarrow> (Inl e, st1\<lparr>gen := None\<rparr>)))"

definition gen_throw :: "('g \<Rightarrow> inp \<Rightarrow> 'g gres) \<Rightarrow> val \<Rightarrow> 'g rstate \<Rightarrow> (val + ret) \<times> 'g rstate" where
  "gen_throw step e st =
     (let st1 = st\<lparr>log := log st @ [GenThrow e]\<rparr>
      in case gen st1 of
           None \<Rightarrow> (Inl e, st1)
         | Some g \<Rightarrow>
             (case step g (Inject e) of
                Yielded w g' \<Rightarrow> (Inr (Ret w False), st1\<lparr>gen := Some g'\<rparr>)
              | Finished w \<Rightarrow> (Inr (Ret w True), st1\<lparr>gen := None\<rparr>)
              | Raised e' \<Rightarrow> (Inl e', st1\<lparr>gen := None\<rparr>)))"

text \<open>\<open>toThunk\<close>; \<open>Inl\<close> is the \<open>Error\<close> it throws.\<close>

definition toThunk :: "val \<Rightarrow> val + callable" where
  "toThunk obj =
     (case obj of
        VFun n e r \<Rightarrow> Inr (Plain n e r)
      | VArr arr \<Rightarrow> Inr (ArrayThunk arr)
      | _ \<Rightarrow> Inl (VErr ''We are only thunking arrays and functions''))"

text \<open>Calling the thunk \<open>VFun n e r\<close> with the callback \<open>c\<close>: the operation is in flight.\<close>

definition start_op :: "nat \<Rightarrow> val \<Rightarrow> val \<Rightarrow> cb \<Rightarrow> 'g rstate \<Rightarrow> 'g rstate" where
  "start_op n e r c st =
     st\<lparr>inflight := inflight st @ [\<lparr>op_name = n, op_err = e, op_res = r, op_cb = c\<rparr>],
        log := log st @ [Started n]\<rparr>"

text \<open>
  The loop \<open>for (var i = 0; i < arr.length; i++) resolve(arr[i], i)\<close> from index \<open>i\<close> on.
  \<open>resolve\<close> calls \<open>arr[i]\<close> as it is: a member that is not a function raises a TypeError,
  which leaves the loop. The first component of the result is the exception that escapes.
\<close>

fun start_members :: "nat \<Rightarrow> val list \<Rightarrow> nat \<Rightarrow> 'g rstate \<Rightarrow> val option \<times> 'g rstate" where
  "start_members f [] i st = (None, st)"
| "start_members f (m # ms) i st =
     (case m of
        VFun n e r \<Rightarrow> start_members f ms (Suc i) (start_op n e r (MemberCb f i) st)
      | _ \<Rightarrow> (Some (VErr ''TypeError: thunk is not a function''), st))"

definition new_frame :: "val list \<Rightarrow> frame" where
  "new_frame arr = \<lparr>pending = int (length arr), results = replicate (length arr) VUndefined\<rparr>"

text \<open>The call \<open>arrayToThunk(arr)(done)\<close>.\<close>

definition arrayToThunk :: "val list \<Rightarrow> 'g rstate \<Rightarrow> val option \<times> 'g rstate" where
  "arrayToThunk arr st =
     start_members (length (frames st)) arr 0 (st\<lparr>frames := frames st @ [new_frame arr]\<rparr>)"

text \<open>\<open>ret.value(function(err, result) { ... })\<close> in \<open>next\<close>.\<close>

definition call_thunk :: "callable \<Rightarrow> 'g rstate \<Rightarrow> val option \<times> 'g rstate" where
  "call_thunk t st =
     (case t of
        Plain n e r \<Rightarrow> (None, start_op n e r RunCb st)
      | ArrayThunk arr \<Rightarrow> arrayToThunk arr st)"

text \<open>The function \<open>next(incoming)\<close> of \<open>run\<close>.\<close>

definition run_next :: "('g \<Rightarrow> inp \<Rightarrow> 'g gres) \<Rightarrow> val \<Rightarrow> 'g rstate \<Rightarrow> val option \<times> 'g rstate" where
  "run_next step incoming st =
     (case gen_next step incoming st of
        (Inl e, st1) \<Rightarrow> (Some e, st1)
      | (Inr (Ret v dn), st1) \<Rightarrow>
          (if dn then (None, st1)
           else (case toThunk v of
                   Inl e \<Rightarrow> (Some e, st1)
                 | Inr t \<Rightarrow> call_thunk t st1)))"

text \<open>The callback of \<open>next\<close>: \<open>if (err) gen.throw(err); next(result);\<close>\<close>

definition run_cb :: "('g \<Rightarrow> inp \<Rightarrow> 'g gres) \<Rightarrow> val \<Rightarrow> val \<Rightarrow> 'g rstate \<Rightarrow> val option \<times> 'g rstate" where
  "run_cb step err result st =
     (if truthy err then
        (case gen_throw step err st of
           (Inl e, st1) \<Rightarrow> (Some e, st1)
         | (Inr r, st1) \<Rightarrow> run_next step result st1)
      else run_next step result st)"

text \<open>
  The callback of a member, on the variables of its aggregate call:
  \<open>if (err) return done(err); results[index] = res; --pending || done(null, results);\<close>
  The second component is the call of \<open>done\<close> it makes, if any, with its two arguments.
\<close>

definition member_done :: "frame \<Rightarrow> nat \<Rightarrow> val \<Rightarrow> val \<Rightarrow> frame \<times> (val \<times> val) option" where
  "member_done fr index err res =
     (if truthy err then (fr, Some (err, VUndefined))
      else (let fr1 = fr\<lparr>results := (results fr)[index := res]\<rparr>;
                fr2 = fr1\<lparr>pending := pending fr1 - 1\<rparr>
            in if pending fr2 \<noteq> 0 then (fr2, None)
               else (fr2, Some (VNull, VArr (results fr2)))))"

text \<open>
  The callback of a member in the runner, where \<open>done\<close> is the callback of \<open>next\<close>. A callback
  \<open>MemberCb f index\<close> exists only after \<open>arrayToThunk\<close> has made frame \<open>f\<close>; the last branch
  is for states that no run reaches.
\<close>

definition member_cb :: "('g \<Rightarrow> inp \<Rightarrow> 'g gres) \<Rightarrow> nat \<Rightarrow> nat \<Rightarrow> val \<Rightarrow> val \<Rightarrow> 'g rstate \<Rightarrow> val option \<times> 'g rstate" where
  "member_cb step f index err res st =
     (if f < length (frames st) then
        (case member_done (frames st ! f) index err res of
           (fr, d) \<Rightarrow>
             (let st1 = st\<lparr>frames := (frames st)[f := fr]\<rparr>
              in case d of
                   None \<Rightarrow> (None, st1)
                 | Some (e, r) \<Rightarrow> run_cb step e r st1))
      else (Some (VErr ''no such frame''), st))"

text \<open>
  The environment's move: the operation \<open>p\<close>, which is in flight, completes and reports
  its \<open>(err, res)\<close> to its callback, once. \<open>None\<close>: no such operation is in flight.
\<close>

definition complete :: "('g \<Rightarrow> inp \<Rightarrow> 'g gres) \<Rightarrow> op \<Rightarrow> 'g rstate \<Rightarrow> (val option \<times> 'g rstate) option" where
  "complete step p st =
     (if p \<in> set (inflight st) then
        (let st1 = st\<lparr>inflight := remove1 p (inflight st)\<rparr>
         in Some (case op_cb p of
                    RunCb \<Rightarrow> run_cb step (op_err p) (op_res p) st1
                  | MemberCb f index \<Rightarrow> member_cb step f index (op_err p) (op_res p) st1))
      else None)"

text \<open>
  The operations \<open>ps\<close> complete one after the other; the sequence ends early when an
  exception escapes a callback.
\<close>

fun complete_all :: "('g \<Rightarrow> inp \<Rightarrow> 'g gres) \<Rightarrow> op list \<Rightarrow> 'g rstate \<Rightarrow> (val option \<times> 'g rstate) option" where
  "complete_all step [] st = Some (None, st)"
| "complete_all step (p # ps) st =
     (case complete step p st of
        None \<Rightarrow> None
      | Some (Some e, st') \<Rightarrow> Some (Some e, st')
      | Some (None, st') \<Rightarrow> complete_all step ps st')"

definition init_rstate :: "'g \<Rightarrow> 'g rstate" where
  "init_rstate g = \<lparr>gen = Some g, inflight = [], frames = [], log = []\<rparr>"

text \<open>\<open>run(genFn)\<close>: \<open>var gen = genFn(); next();\<close>\<close>

definition run :: "('g \<Rightarrow> inp \<Rightarrow> 'g gres) \<Rightarrow> 'g \<Rightarrow> val option \<times> 'g rstate" where
  "run step g = run_next step VUndefined (init_rstate g)"

text \<open>\<open>'function' == typeof obj\<close>, \<open>Array.isArray(obj)\<close>, and the parts of a thunk.\<close>

fun is_thunk :: "val \<Rightarrow> bool" where
  "is_thunk (VFun n e r) = True"
| "is_thunk v = False"

fun is_array :: "val \<Rightarrow> bool" where
  "is_array (VArr xs) = True"
| "is_array v = False"

fun thunk_name :: "val \<Rightarrow> nat" where
  "thunk_name (VFun n e r) = n"
| "thunk_name v = 0"

fun thunk_err :: "val \<Rightarrow> val" where
  "thunk_err (VFun n e r) = e"
| "thunk_err v = VUndefined"

fun thunk_res :: "val \<Rightarrow> val" where
  "thunk_res (VFun n e r) = r"
| "thunk_res v = VUndefined"

definition member_op :: "nat \<Rightarrow> nat \<Rightarrow> val \<Rightarrow> op" where
  "member_op f i m =
     \<lparr>op_name = thunk_name m, op_err = thunk_err m, op_res = thunk_res m, op_cb = MemberCb f i\<rparr>"

text \<open>The operation of member \<open>i\<close> of the array \<open>arr\<close> in the aggregate call \<open>f\<close>.\<close>

definition member_at :: "nat \<Rightarrow> val list \<Rightarrow> nat \<Rightarrow> op" where
  "member_at f arr i = member_op f i (arr ! i)"

text \<open>
  The state after the aggregate call on \<open>arr\<close>: a new frame, every member in flight behind
  the operations that were in flight, in index order, and nothing else changed.
\<close>

definition all_started :: "val list \<Rightarrow> 'g rstate \<Rightarrow> 'g rstate" where
  "all_started arr st =
     st\<lparr>frames := frames st @ [new_frame arr],
        inflight := inflight st @ map (member_at (length (frames st)) arr) [0..<length arr],
        log := log st @ map (\<lambda>m. Started (thunk_name m)) arr\<rparr>"

text \<open>An operation whose callback does not belong to the aggregate call \<open>f\<close>.\<close>

definition unrelated :: "nat \<Rightarrow> op \<Rightarrow> bool" where
  "unrelated f p = (case op_cb p of RunCb \<Rightarrow> True | MemberCb f' index \<Rightarrow> f' \<noteq> f)"

text \<open>
  Every member callback in flight belongs to a frame that exists; the states that a run
  reaches: the state that \<open>run\<close> returns with, and those that completions of operations
  in flight lead to.
\<close>

definition cb_in_range :: "nat \<Rightarrow> op \<Rightarrow> bool" where
  "cb_in_range n p = (case op_cb p of RunCb \<Rightarrow> True | MemberCb f index \<Rightarrow> f < n)"

definition frames_exist :: "'g rstate \<Rightarrow> bool" where
  "frames_exist st = list_all (cb_in_range (length (frames st))) (inflight st)"

inductive reachable :: "('g \<Rightarrow> inp \<Rightarrow> 'g gres) \<Rightarrow> 'g \<Rightarrow> 'g rstate \<Rightarrow> bool"
  for step :: "'g \<Rightarrow> inp \<Rightarrow> 'g gres" and g :: 'g
where
  after_run: "reachable step g (snd (run step g))"
| after_completion:
    "reachable step g st \<Longrightarrow> complete step p st = Some (e, st') \<Longrightarrow> reachable step g st'"

text \<open>
  The states that completions of operations in flight lead to from a given state, whether
  or not an exception escapes a callback on the way.
\<close>

inductive reaches :: "('g \<Rightarrow> inp \<Rightarrow> 'g gres) \<Rightarrow> 'g rstate \<Rightarrow> 'g rstate \<Rightarrow> bool"
  for step :: "'g \<Rightarrow> inp \<Rightarrow> 'g gres" and st :: "'g rstate"
where
  reaches_here: "reaches step st st"
| reaches_completion:
    "reaches step st st' \<Longrightarrow> complete step p st' = Some (e, st'') \<Longrightarrow> reaches step st st''"

text \<open>
  The frame \<open>f\<close> is \<open>fr\<close> and no operation in flight has a callback of the aggregate call
  \<open>f\<close>: nothing can report to that call.
\<close>

definition sealed :: "nat \<Rightarrow> frame \<Rightarrow> 'g rstate \<Rightarrow> bool" where
  "sealed f fr st =
     (f < length (frames st) \<and> frames st ! f = fr \<and> list_all (unrelated f) (inflight st))"

text \<open>
  The frame of an aggregate call over \<open>n\<close> members after the members in \<open>S\<close> have reported
  the results \<open>R\<close>.
\<close>

definition frame_after :: "nat \<Rightarrow> (nat \<Rightarrow> val) \<Rightarrow> nat set \<Rightarrow> frame" where
  "frame_after n R S =
     \<lparr>pending = int n - int (card S),
      results = map (\<lambda>i. if i \<in> S then R i else VUndefined) [0..<n]\<rparr>"

text \<open>
  Two generators.
  \<^verbatim>\<open>function *() { try { var x = yield read('missing.txt'); return x; }
                 catch (e) { var y = yield read('fallback.txt'); return y; } }\<close>
  where the first read fails with \<open>ENOENT\<close>, and
  \<^verbatim>\<open>function *() { var x = yield w; return x; }\<close>
\<close>

datatype catching_pc = Entry | InTry | InCatch

fun catching :: "catching_pc \<Rightarrow> inp \<Rightarrow> catching_pc gres" where
  "catching Entry (Next v) = Yielded (VFun 1 (VErr ''ENOENT'') VUndefined) InTry"
| "catching Entry (Inject e) = Raised e"
| "catching InTry (Next v) = Finished v"
| "catching InTry (Inject e) = Yielded (VFun 2 VNull (VStr ''fallback'')) InCatch"
| "catching InCatch (Next v) = Finished v"
| "catching InCatch (Inject e) = Raised e"

fun one_shot :: "val \<Rightarrow> bool \<Rightarrow> inp \<Rightarrow> bool gres" where
  "one_shot w False (Next v) = Yielded w True"
| "one_shot w True (Next v) = Finished v"
| "one_shot w b (Inject e) = Raised e"

text \<open>
  Two more generators, and the array of two reads that both fail.
  \<^verbatim>\<open>function *() { try { var x = yield read('missing.txt'); return x; }
                 catch (e) { var y = yield 42; return y; } }\<close>
  and
  \<^verbatim>\<open>function *() { try { yield [read('a.txt'), read('b.txt')]; }
                 catch (e) { yield read('c.txt'); }
                 try { var r = yield []; return r; } catch (e2) { return e2; } }\<close>
\<close>

fun recovering :: "catching_pc \<Rightarrow> inp \<Rightarrow> catching_pc gres" where
  "recovering Entry (Next v) = Yielded (VFun 1 (VErr ''ENOENT'') VUndefined) InTry"
| "recovering Entry (Inject e) = Raised e"
| "recovering InTry (Next v) = Finished v"
| "recovering InTry (Inject e) = Yielded (VNum 42) InCatch"
| "recovering InCatch (Next v) = Finished v"
| "recovering InCatch (Inject e) = Raised e"

definition two_missing :: "val list" where
  "two_missing = [VFun 1 (VErr ''E1'') VUndefined, VFun 2 (VErr ''E2'') VUndefined]"

datatype leftover_pc = AtStart | AtArray | AtCatch | AtEmpty

fun leftover :: "leftover_pc \<Rightarrow> inp \<Rightarrow> leftover_pc gres" where
  "leftover AtStart (Next v) = Yielded (VArr two_missing) AtArray"
| "leftover AtStart (Inject e) = Raised e"
| "leftover AtArray (Next v) = Yielded (VArr []) AtEmpty"
| "leftover AtArray (Inject e) = Yielded (VFun 3 VNull (VStr ''c'')) AtCatch"
| "leftover AtCatch (Next v) = Yielded (VArr []) AtEmpty"
| "leftover AtCatch (Inject e) = Raised e"
| "leftover AtEmpty (Next v) = Finished v"
| "leftover AtEmpty (Inject e) = Finished e"

definition succeeds :: "val \<Rightarrow> bool" where
  "succeeds m = (\<not> truthy (thunk_err m))"

text \<open>Work items of the scenarios.\<close>

definition slow_fast_medium :: "val list" where
  "slow_fast_medium =
     [VFun 1 VNull (VStr ''slow''), VFun 2 VNull (VStr ''fast''), VFun 3 VNull (VStr ''medium'')]"

definition ok_and_missing :: "val list" where
  "ok_and_missing = [VFun 1 VNull (VStr ''ok''), VFun 2 (VErr ''ENOENT'') VUndefined]"

text \<open>The runner after \<open>gen.next\<close> has returned the first yield of a \<open>one_shot\<close> generator.\<close>

definition awaiting :: "bool rstate" where
  "awaiting = \<lparr>gen = Some True, inflight = [], frames = [], log = [GenNext VUndefined]\<rparr>"

text \<open>The operation of \<open>read('missing.txt')\<close> called by \<open>next\<close>.\<close>

definition missing_read :: op where
  "missing_read = \<lparr>op_name = 1, op_err = VErr ''ENOENT'', op_res = VUndefined, op_cb = RunCb\<rparr>"

section \<open>Properties of the deferred/promise engine\<close>

subsection \<open>Fuel\<close>

text \<open>
  A run that ends with some fuel ends in the same state with any larger fuel, so a result
  \<open>Inr st\<close> below is the result of the program, whatever fuel the statement names.
\<close>

lemma fuel_mono:
  "(resolve k d v st = Inr st' \<longrightarrow> resolve (Suc k) d v st = Inr st')"
  "(reject k d v st = Inr st' \<longrightarrow> reject (Suc k) d v st = Inr st')"
  "(call_fn k f v st = Inr cs \<longrightarrow> call_fn (Suc k) f v st = Inr cs)"
  "(Resolve k d v st = Inr st' \<longrightarrow> Resolve (Suc k) d v st = Inr st')"
proof (induction k d v st and k d v st and k f v st and k d v st arbitrary: st' and st' and cs and st'
       rule: resolve_reject_call_fn_Resolve.induct)
  case (1 d res st)
  then show ?case by simp
next
  case (2 k d res st)
  show ?case
  proof
    assume a: "resolve (Suc k) d res st = Inr st'"
    then have dl: "d < length (slots st)" by (simp split: if_splits)
    show "resolve (Suc (Suc k)) d res st = Inr st'"
    proof (cases "callback (slots st ! d)")
      case None
      with a dl show ?thesis by simp
    next
      case (Some fn)
      obtain f n where fn: "fn = (f, n)" by (cases fn)
      from a dl Some fn obtain c st1 where c: "call_fn k f res st = Inr (c, st1)"
        by (cases "call_fn k f res st") auto
      from 2(1)[OF dl Some fn[symmetric]] c have c': "call_fn (Suc k) f res st = Inr (c, st1)"
        by simp
      show ?thesis
      proof (cases c)
        case (Returns r)
        from a dl Some fn c Returns have "Resolve k n r st1 = Inr st'" by simp
        with 2(2)[OF dl Some fn[symmetric] c refl Returns]
        have "Resolve (Suc k) n r st1 = Inr st'" by blast
        with dl Some fn c' Returns show ?thesis by (simp del: Resolve.simps)
      next
        case (Throws e)
        from a dl Some fn c Throws have "reject k n e st1 = Inr st'" by simp
        with 2(3)[OF dl Some fn[symmetric] c refl Throws]
        have "reject (Suc k) n e st1 = Inr st'" by blast
        with dl Some fn c' Throws show ?thesis by (simp del: reject.simps)
      qed
    qed
  qed
next
  case (3 d err st)
  then show ?case by simp
next
  case (4 k d err st)
  show ?case
  proof
    assume a: "reject (Suc k) d err st = Inr st'"
    then have dl: "d < length (slots st)" by (simp split: if_splits)
    show "reject (Suc (Suc k)) d err st = Inr st'"
    proof (cases "errback (slots st ! d)")
      case None
      with a dl show ?thesis by simp
    next
      case (Some fn)
      obtain f n where fn: "fn = (f, n)" by (cases fn)
      from a dl Some fn obtain c st1 where c: "call_fn k f err st = Inr (c, st1)"
        by (cases "call_fn k f err st") auto
      from 4(1)[OF dl Some fn[symmetric]] c have c': "call_fn (Suc k) f err st = Inr (c, st1)"
        by simp
      show ?thesis
      proof (cases c)
        case (Returns r)
        from a dl Some fn c Returns have "st1 = st'" by simp
        with dl Some fn c' Returns show ?thesis by simp
      next
        case (Throws e)
        from a dl Some fn c Throws have "reject k n e st1 = Inr st'" by simp
        with 4(2)[OF dl Some fn[symmetric] c refl Throws]
        have "reject (Suc k) n e st1 = Inr st'" by blast
        with dl Some fn c' Throws show ?thesis by (subst reject.simps(2)) (simp del: reject.simps)
      qed
    qed
  qed
next
  case (5 k name body v st)
  then show ?case by simp
next
  case (6 k d v st)
  show ?case
  proof
    assume a: "call_fn k (FwdResolve d) v st = Inr cs"
    then obtain s1 where s1: "resolve k d v st = Inr s1" "cs = (Returns VUndefined, s1)"
      by (cases "resolve k d v st") auto
    with 6 have "resolve (Suc k) d v st = Inr s1" by blast
    with s1 show "call_fn (Suc k) (FwdResolve d) v st = Inr cs" by (simp del: resolve.simps)
  qed
next
  case (7 k d v st)
  show ?case
  proof
    assume a: "call_fn k (FwdReject d) v st = Inr cs"
    then obtain s1 where s1: "reject k d v st = Inr s1" "cs = (Returns VUndefined, s1)"
      by (cases "reject k d v st") auto
    with 7 have "reject (Suc k) d v st = Inr s1" by blast
    with s1 show "call_fn (Suc k) (FwdReject d) v st = Inr cs" by (simp del: reject.simps)
  qed
next
  case (8 k v st)
  then show ?case by simp
next
  case (9 k d v st)
  show ?case
  proof (cases "thenable v")
    case None
    with 9 show ?thesis by (simp del: resolve.simps)
  next
    case (Some x)
    then show ?thesis by simp
  qed
qed

lemma resolve_fuel_add: "resolve k d v st = Inr st' \<Longrightarrow> resolve (k + j) d v st = Inr st'"
  by (induction j) (simp_all add: fuel_mono(1) del: resolve.simps)

lemma reject_fuel_add: "reject k d v st = Inr st' \<Longrightarrow> reject (k + j) d v st = Inr st'"
  by (induction j) (simp_all add: fuel_mono(2) del: reject.simps)

subsection \<open>Registration and handler calls\<close>

lemma then_p_Inr:
  "then_p d f g st = Inr (n, st1) \<Longrightarrow>
     d < length (slots st) \<and> n = length (slots st) \<and>
     st1 = st\<lparr>slots := (slots st @ [empty_slot])
               [d := \<lparr>callback = Some (f, n), errback = Some (default_errback g, n)\<rparr>]\<rparr>"
  by (auto simp: then_p_def defer_d_def split: if_splits)

lemma call_fn_Throws_slots:
  "call_fn k f v st = Inr (Throws e, st') \<Longrightarrow> slots st' = slots st"
  by (cases f) (auto split: sum.splits)

lemma Resolve_plain: "thenable r = None \<Longrightarrow> Resolve k n r st = resolve k n VNull st"
  by simp

lemmas scenario_defs = then_chain_def then1_def three_deferreds_def const_handler_def
  throwing_def and_then_def defer_d_def init_pstate_def then_p_def empty_slot_def
  default_errback_def thenable_def

subsection \<open>C1: a plain return value of a handler\<close>

text \<open>
  C1 says that a success handler's plain return value \<open>r\<close> settles the next promise with
  exactly \<open>r\<close>. The code calls \<open>deferred.resolve(null, value)\<close>, and \<open>resolve\<close> reads its
  first argument only: in \<open>then(a).then(b)\<close> with \<open>a\<close> returning \<open>5\<close>, after \<open>resolve(1)\<close>
  the handler \<open>b\<close> is called with \<open>null\<close>.
\<close>

theorem C1_plain_return_arrives_as_null:
  "map_sum id trace
     (and_then (then_chain 0 (UserFn 0 (const_handler (VNum 5))) (UserFn 1 Returns) None
                  (snd (defer_d init_pstate)))
        (resolve 9 0 (VNum 1)))
   = Inr [Called 0 (VNum 1), Called 1 VNull]"
  by (simp add: scenario_defs eval_nat_numeral)

subsection \<open>C3: adoption of returned promises\<close>

text \<open>
  C3, as stated, fails. Deferreds \<open>0\<close>, \<open>1\<close>, \<open>2\<close>; \<open>then(a).then(b)\<close> on the promise of
  \<open>0\<close>, where \<open>a\<close> returns \<open>P1\<close>, the promise of \<open>1\<close>. After \<open>0\<close> is resolved, \<open>1\<close> is
  resolved with \<open>P2\<close>, the promise of \<open>2\<close>, and \<open>2\<close> with \<open>42\<close>: the handler \<open>b\<close> is called
  with the promise object \<open>P2\<close>, and never with \<open>42\<close>.
\<close>

theorem C3_nested_promise_delivered_as_object:
  "map_sum id trace
     (and_then (and_then (and_then
        (then_chain 0 (UserFn 0 (const_handler (VPromise 1))) (UserFn 1 Returns) None
           three_deferreds)
        (resolve 9 0 (VNum 0)))
        (resolve 9 1 (VPromise 2)))
        (resolve 9 2 (VNum 42)))
   = Inr [Called 0 (VNum 0), Called 1 (VPromise 2)]"
  by (simp add: scenario_defs eval_nat_numeral)

text \<open>
  C3 as amended: adoption is one level per handler return value. (1) When a handler's return
  value is the promise of \<open>x\<close>, \<open>Resolve\<close> registers forwarders on \<open>x\<close> and calls no
  handler; afterwards resolving \<open>x\<close> with any value \<open>v\<close>, a promise or not, resolves the next
  deferred \<open>d\<close> with \<open>v\<close> unchanged (and then the promise that this inner \<open>then\<close> returned
  with \<open>null\<close>), and rejecting \<open>x\<close> rejects \<open>d\<close> with the same error. (2) \<open>resolve\<close> adopts
  nothing: the registered success handler is called with the very value given to \<open>resolve\<close>.
  (3) Nesting is flattened when each nested promise comes from a handler's return value:
  deferreds \<open>0\<close>, \<open>1\<close>, \<open>2\<close>; \<open>P1\<close> is the promise of \<open>then(h)\<close> on \<open>1\<close> with \<open>h\<close>
  returning \<open>P2\<close>, the promise of \<open>0\<close>; \<open>then(a).then(b)\<close> on \<open>2\<close> with \<open>a\<close> returning
  \<open>P1\<close>. After \<open>2\<close>, \<open>1\<close> and \<open>0\<close> are resolved in this order, \<open>b\<close> is called with the
  value \<open>v\<close> that \<open>0\<close> was resolved with.
\<close>

theorem C3_adoption_is_one_level:
  "(x < length (slots st) \<longrightarrow>
      (\<exists>st'. Resolve k d (VPromise x) st = Inr st' \<and> trace st' = trace st \<and>
         resolve (Suc k) x v st' =
           and_then (resolve k d v st') (resolve k (length (slots st)) VNull) \<and>
         reject (Suc k) x e st' = reject k d e st')) \<and>
   (d < length (slots st) \<and> callback (slots st ! d) = Some (UserFn nm body, n) \<longrightarrow>
      resolve (Suc k) d v st =
        (case body v of
           Returns r \<Rightarrow> Resolve k n r (st\<lparr>trace := trace st @ [Called nm v]\<rparr>)
         | Throws err \<Rightarrow> reject k n err (st\<lparr>trace := trace st @ [Called nm v]\<rparr>))) \<and>
   map_sum id trace
     (and_then (and_then (and_then (and_then
        (then1 1 (UserFn 0 (const_handler (VPromise 0))) None three_deferreds)
        (then_chain 2 (UserFn 1 (const_handler (VPromise 3)))
                      (UserFn 2 (const_handler VUndefined)) None))
        (resolve (Suc (Suc (Suc (Suc k)))) 2 v0))
        (resolve (Suc (Suc (Suc (Suc k)))) 1 v1))
        (resolve (Suc (Suc (Suc (Suc k)))) 0 v))
   = Inr [Called 1 v0, Called 0 v1, Called 2 v]"
proof -
  have A: "x < length (slots st) \<longrightarrow>
      (\<exists>st'. Resolve k d (VPromise x) st = Inr st' \<and> trace st' = trace st \<and>
         resolve (Suc k) x v st' =
           and_then (resolve k d v st') (resolve k (length (slots st)) VNull) \<and>
         reject (Suc k) x e st' = reject k d e st')"
    by (auto simp: thenable_def then_p_def defer_d_def default_errback_def and_then_def
             split: sum.splits)
  have B: "d < length (slots st) \<and> callback (slots st ! d) = Some (UserFn nm body, n) \<longrightarrow>
      resolve (Suc k) d v st =
        (case body v of
           Returns r \<Rightarrow> Resolve k n r (st\<lparr>trace := trace st @ [Called nm v]\<rparr>)
         | Throws err \<Rightarrow> reject k n err (st\<lparr>trace := trace st @ [Called nm v]\<rparr>))"
    by (auto split: completion.splits)
  have C: "map_sum id trace
     (and_then (and_then (and_then (and_then
        (then1 1 (UserFn 0 (const_handler (VPromise 0))) None three_deferreds)
        (then_chain 2 (UserFn 1 (const_handler (VPromise 3)))
                      (UserFn 2 (const_handler VUndefined)) None))
        (resolve (Suc (Suc (Suc (Suc k)))) 2 v0))
        (resolve (Suc (Suc (Suc (Suc k)))) 1 v1))
        (resolve (Suc (Suc (Suc (Suc k)))) 0 v))
   = Inr [Called 1 v0, Called 0 v1, Called 2 v]"
    by (simp add: scenario_defs)
  from A B C show ?thesis by blast
qed

text \<open>
  C3 as amended, at an input: a store of three deferreds, where \<open>1\<close> has the success
  handler \<open>5\<close> registered towards \<open>2\<close>, and the promise of \<open>0\<close> is adopted for \<open>1\<close>.
\<close>

theorem C3_adoption_is_one_level_witness:
  "(0::nat) < length (slots registered_once) \<and>
   (\<exists>st'. Resolve 5 1 (VPromise 0) registered_once = Inr st' \<and>
      trace st' = trace registered_once \<and>
      resolve 6 0 (VNum 42) st' =
        and_then (resolve 5 1 (VNum 42) st') (resolve 5 (length (slots registered_once)) VNull) \<and>
      map_sum id trace (resolve 6 0 (VNum 42) st') = Inr [Called 5 (VNum 42)] \<and>
      reject 6 0 (VStr ''e'') st' = reject 5 1 (VStr ''e'') st') \<and>
   (1::nat) < length (slots registered_once) \<and>
   callback (slots registered_once ! 1) = Some (UserFn 5 Returns, 2) \<and>
   resolve 6 1 (VNum 42) registered_once =
     Resolve 5 2 (VNum 42)
       (registered_once\<lparr>trace := trace registered_once @ [Called 5 (VNum 42)]\<rparr>) \<and>
   map_sum id trace
     (and_then (and_then (and_then (and_then
        (then1 1 (UserFn 0 (const_handler (VPromise 0))) None three_deferreds)
        (then_chain 2 (UserFn 1 (const_handler (VPromise 3)))
                      (UserFn 2 (const_handler VUndefined)) None))
        (resolve 9 2 (VNum 7)))
        (resolve 9 1 (VNum 8)))
        (resolve 9 0 (VNum 42)))
   = Inr [Called 1 (VNum 7), Called 0 (VNum 8), Called 2 (VNum 42)]"
  using C3_adoption_is_one_level
          [where x = 0 and st = registered_once and k = 5 and d = 1 and v = "VNum 42"
             and e = "VStr ''e''" and nm = 5 and body = Returns and n = 2
             and ?v0.0 = "VNum 7" and ?v1.0 = "VNum 8"]
  by (simp add: registered_once_def scenario_defs eval_nat_numeral)

subsection \<open>C6: the default failure handler\<close>

text \<open>
  C6: \<open>then(a)\<close> without a failure handler on deferred \<open>d\<close>, followed by
  \<open>then(b, errHandler)\<close> on the promise it returned. A failure that settles \<open>d\<close> is passed
  to the next deferred unchanged; with both links registered it reaches \<open>errHandler\<close>, and
  so does an error that \<open>a\<close> throws: the only handlers called are \<open>a\<close> and \<open>errHandler\<close>,
  never \<open>b\<close>.
\<close>

theorem C6_default_errback_passes_failure_on:
  assumes t1: "then_p d (UserFn na fa) None st = Inr (p1, st1)"
      and t2: "then_p p1 b (Some (UserFn ne eh)) st1 = Inr (p2, st2)"
  shows "reject (Suc k) d e st1 = reject k p1 e st1 \<and>
         reject (Suc (Suc (Suc k))) d e st2 = Inr (st2\<lparr>trace := trace st2 @ [Called ne e]\<rparr>) \<and>
         (fa v = Throws e \<longrightarrow>
            resolve (Suc (Suc (Suc k))) d v st2 =
              Inr (st2\<lparr>trace := trace st2 @ [Called na v, Called ne e]\<rparr>))"
proof -
  from then_p_Inr[OF t1] have d: "d < length (slots st)" and p1: "p1 = length (slots st)"
    and st1: "st1 = st\<lparr>slots := (slots st @ [empty_slot])
               [d := \<lparr>callback = Some (UserFn na fa, p1), errback = Some (Rethrow, p1)\<rparr>]\<rparr>"
    by (auto simp: default_errback_def)
  from then_p_Inr[OF t2] have p2: "p2 = length (slots st1)"
    and st2: "st2 = st1\<lparr>slots := (slots st1 @ [empty_slot])
               [p1 := \<lparr>callback = Some (b, p2), errback = Some (UserFn ne eh, p2)\<rparr>]\<rparr>"
    by (auto simp: default_errback_def)
  from d p1 st1 have len1: "length (slots st1) = Suc (length (slots st))" by simp
  have s1d: "slots st1 ! d = \<lparr>callback = Some (UserFn na fa, p1), errback = Some (Rethrow, p1)\<rparr>"
    using d st1 by simp
  have len2: "length (slots st2) = Suc (Suc (length (slots st)))"
    using st2 len1 by simp
  have s2d: "slots st2 ! d = \<lparr>callback = Some (UserFn na fa, p1), errback = Some (Rethrow, p1)\<rparr>"
    using d p1 st2 s1d len1 by (simp add: nth_append)
  have s2p1: "slots st2 ! p1 = \<lparr>callback = Some (b, p2), errback = Some (UserFn ne eh, p2)\<rparr>"
    using p1 st2 len1 by simp
  have s2p2: "slots st2 ! p2 = empty_slot"
    using p1 p2 st2 len1 by (simp add: nth_append)
  have A: "reject (Suc k) d e st1 = reject k p1 e st1"
    using d len1 s1d by simp
  have tail: "\<And>j x (s::pstate). slots s = slots st2 \<Longrightarrow> reject (Suc j) p2 x s = Inr s"
    using s2p2 len2 p2 len1 by (simp add: empty_slot_def)
  have eh: "\<And>j (s::pstate). slots s = slots st2 \<Longrightarrow>
      reject (Suc (Suc j)) p1 e s = Inr (s\<lparr>trace := trace s @ [Called ne e]\<rparr>)"
  proof -
    fix j and s :: pstate assume s: "slots s = slots st2"
    have "slots (s\<lparr>trace := trace s @ [Called ne e]\<rparr>) = slots st2" using s by simp
    note t = tail[OF this]
    show "reject (Suc (Suc j)) p1 e s = Inr (s\<lparr>trace := trace s @ [Called ne e]\<rparr>)"
      using s s2p1 len2 p1 t
      by (cases "eh e") (simp_all del: reject.simps(2) add: reject.simps(2)[of "Suc j"])
  qed
  have B: "reject (Suc (Suc (Suc k))) d e st2 = Inr (st2\<lparr>trace := trace st2 @ [Called ne e]\<rparr>)"
    using s2d d len2 eh[of st2 k]
    by (simp del: reject.simps(2) add: reject.simps(2)[of "Suc (Suc k)"])
  have C: "fa v = Throws e \<longrightarrow>
            resolve (Suc (Suc (Suc k))) d v st2 =
              Inr (st2\<lparr>trace := trace st2 @ [Called na v, Called ne e]\<rparr>)"
    using s2d d len2 eh[of "st2\<lparr>trace := trace st2 @ [Called na v]\<rparr>" k]
    by (simp del: reject.simps(2))
  from A B C show ?thesis by blast
qed

text \<open>
  C6 at an input: \<open>a\<close> throws \<open>''boom''\<close> whatever it receives; \<open>b\<close> is handler \<open>1\<close>,
  \<open>errHandler\<close> is handler \<open>2\<close>.
\<close>

theorem C6_default_errback_passes_failure_on_witness:
  "then_p 0 (UserFn 0 (throwing (VStr ''boom''))) None one_deferred =
     Inr (1, \<lparr>slots = [\<lparr>callback = Some (UserFn 0 (throwing (VStr ''boom'')), 1),
                         errback = Some (Rethrow, 1)\<rparr>, empty_slot], trace = []\<rparr>) \<and>
   then_p 1 (UserFn 1 Returns) (Some (UserFn 2 Returns))
       \<lparr>slots = [\<lparr>callback = Some (UserFn 0 (throwing (VStr ''boom'')), 1),
                  errback = Some (Rethrow, 1)\<rparr>, empty_slot], trace = []\<rparr> =
     Inr (2, \<lparr>slots = [\<lparr>callback = Some (UserFn 0 (throwing (VStr ''boom'')), 1),
                         errback = Some (Rethrow, 1)\<rparr>,
                       \<lparr>callback = Some (UserFn 1 Returns, 2),
                         errback = Some (UserFn 2 Returns, 2)\<rparr>, empty_slot], trace = []\<rparr>) \<and>
   throwing (VStr ''boom'') (VNum 1) = Throws (VStr ''boom'') \<and>
   map_sum id trace
     (resolve 3 0 (VNum 1)
        \<lparr>slots = [\<lparr>callback = Some (UserFn 0 (throwing (VStr ''boom'')), 1),
                   errback = Some (Rethrow, 1)\<rparr>,
                 \<lparr>callback = Some (UserFn 1 Returns, 2),
                   errback = Some (UserFn 2 Returns, 2)\<rparr>, empty_slot], trace = []\<rparr>) =
     Inr [Called 0 (VNum 1), Called 2 (VStr ''boom'')] \<and>
   map_sum id trace
     (reject 3 0 (VStr ''boom'')
        \<lparr>slots = [\<lparr>callback = Some (UserFn 0 (throwing (VStr ''boom'')), 1),
                   errback = Some (Rethrow, 1)\<rparr>,
                 \<lparr>callback = Some (UserFn 1 Returns, 2),
                   errback = Some (UserFn 2 Returns, 2)\<rparr>, empty_slot], trace = []\<rparr>) =
     Inr [Called 2 (VStr ''boom'')]"
proof -
  have t1: "then_p 0 (UserFn 0 (throwing (VStr ''boom''))) None one_deferred =
     Inr (1, \<lparr>slots = [\<lparr>callback = Some (UserFn 0 (throwing (VStr ''boom'')), 1),
                         errback = Some (Rethrow, 1)\<rparr>, empty_slot], trace = []\<rparr>)"
    by (simp add: one_deferred_def then_p_def defer_d_def init_pstate_def default_errback_def)
  have t2: "then_p 1 (UserFn 1 Returns) (Some (UserFn 2 Returns))
       \<lparr>slots = [\<lparr>callback = Some (UserFn 0 (throwing (VStr ''boom'')), 1),
                  errback = Some (Rethrow, 1)\<rparr>, empty_slot], trace = []\<rparr> =
     Inr (2, \<lparr>slots = [\<lparr>callback = Some (UserFn 0 (throwing (VStr ''boom'')), 1),
                         errback = Some (Rethrow, 1)\<rparr>,
                       \<lparr>callback = Some (UserFn 1 Returns, 2),
                         errback = Some (UserFn 2 Returns, 2)\<rparr>, empty_slot], trace = []\<rparr>)"
    by (simp add: then_p_def defer_d_def default_errback_def)
  have th: "throwing (VStr ''boom'') (VNum 1) = Throws (VStr ''boom'')"
    by (simp add: throwing_def)
  from C6_default_errback_passes_failure_on[OF t1 t2, of 0 "VStr ''boom''" "VNum 1"] th t1 t2
  show ?thesis by (simp add: eval_nat_numeral del: resolve.simps reject.simps)
qed

subsection \<open>C7: a handler that throws\<close>

lemma reject_reaches_handler:
  fixes s :: pstate
  assumes "n < length (slots s)" and "errback (slots s ! n) = Some (UserFn ne eh, m)"
      and "m < length (slots s)" and "errback (slots s ! m) = None"
  shows "reject (Suc (Suc j)) n e s = Inr (s\<lparr>trace := trace s @ [Called ne e]\<rparr>)"
proof -
  have tail: "\<And>x. reject (Suc j) m x (s\<lparr>trace := trace s @ [Called ne e]\<rparr>) =
                Inr (s\<lparr>trace := trace s @ [Called ne e]\<rparr>)"
    using assms(3,4) by simp
  show ?thesis
    using assms(1,2) tail
    by (cases "eh e") (simp_all del: reject.simps(2) add: reject.simps(2)[of "Suc j"])
qed

text \<open>
  C7: \<open>then(f, g)\<close> on deferred \<open>d\<close> has returned the promise of the new deferred \<open>n\<close>, and
  \<open>then(b, errHandler)\<close> on that promise makes the settlement of \<open>n\<close> visible. When \<open>d\<close> is
  resolved and its success handler throws \<open>e\<close>, the run ends with \<open>errHandler\<close> called
  with \<open>e\<close>: the new promise is rejected with the thrown error. Nothing else happens: the
  failure handler \<open>g\<close> of \<open>d\<close> itself is not called, \<open>b\<close> is not called, and every closure
  variable of the store is as it was. The same holds when \<open>d\<close> is rejected and its failure
  handler (the default one included) throws. With no handlers on \<open>n\<close> the throw of a
  handler of \<open>d\<close> is absorbed there: again \<open>g\<close> is not called. \<open>n\<close> is not \<open>d\<close>.
\<close>

theorem C7_handler_throw_rejects_next_promise:
  assumes t1: "then_p d f g st = Inr (n, st1)"
      and t2: "then_p n b (Some (UserFn ne eh)) st1 = Inr (m, st2)"
  shows "n \<noteq> d \<and>
    (call_fn (Suc (Suc k)) f v st2 = Inr (Throws e, s') \<longrightarrow>
       resolve (Suc (Suc (Suc k))) d v st2 = Inr (s'\<lparr>trace := trace s' @ [Called ne e]\<rparr>) \<and>
       slots s' = slots st2) \<and>
    (call_fn (Suc (Suc k)) (default_errback g) v st2 = Inr (Throws e, s') \<longrightarrow>
       reject (Suc (Suc (Suc k))) d v st2 = Inr (s'\<lparr>trace := trace s' @ [Called ne e]\<rparr>) \<and>
       slots s' = slots st2) \<and>
    (f = UserFn nf ff \<and> ff v = Throws e \<longrightarrow>
       resolve (Suc (Suc (Suc k))) d v st2 =
         Inr (st2\<lparr>trace := trace st2 @ [Called nf v, Called ne e]\<rparr>) \<and>
       resolve (Suc (Suc k)) d v st1 = Inr (st1\<lparr>trace := trace st1 @ [Called nf v]\<rparr>)) \<and>
    (g = Some (UserFn ng gf) \<and> gf v = Throws e \<longrightarrow>
       reject (Suc (Suc (Suc k))) d v st2 =
         Inr (st2\<lparr>trace := trace st2 @ [Called ng v, Called ne e]\<rparr>) \<and>
       reject (Suc (Suc k)) d v st1 = Inr (st1\<lparr>trace := trace st1 @ [Called ng v]\<rparr>))"
proof -
  from then_p_Inr[OF t1] have d: "d < length (slots st)" and n: "n = length (slots st)"
    and st1: "st1 = st\<lparr>slots := (slots st @ [empty_slot])
               [d := \<lparr>callback = Some (f, n), errback = Some (default_errback g, n)\<rparr>]\<rparr>"
    by auto
  from then_p_Inr[OF t2] have m: "m = length (slots st1)"
    and st2: "st2 = st1\<lparr>slots := (slots st1 @ [empty_slot])
               [n := \<lparr>callback = Some (b, m), errback = Some (UserFn ne eh, m)\<rparr>]\<rparr>"
    by (auto simp: default_errback_def)
  from d n st1 have len1: "length (slots st1) = Suc (length (slots st))" by simp
  have len2: "length (slots st2) = Suc (Suc (length (slots st)))" using st2 len1 by simp
  have s1d: "slots st1 ! d = \<lparr>callback = Some (f, n), errback = Some (default_errback g, n)\<rparr>"
    using d st1 by simp
  have s1n: "slots st1 ! n = empty_slot" using d n st1 by (simp add: nth_append)
  have s2d: "slots st2 ! d = \<lparr>callback = Some (f, n), errback = Some (default_errback g, n)\<rparr>"
    using d n st2 s1d len1 by (simp add: nth_append)
  have s2n: "slots st2 ! n = \<lparr>callback = Some (b, m), errback = Some (UserFn ne eh, m)\<rparr>"
    using n st2 len1 by simp
  have s2m: "slots st2 ! m = empty_slot" using n m st2 len1 by (simp add: nth_append)
  have nd: "n \<noteq> d" using d n by simp
  have next2: "\<And>(s::pstate) x. slots s = slots st2 \<Longrightarrow>
      reject (Suc (Suc k)) n x s = Inr (s\<lparr>trace := trace s @ [Called ne x]\<rparr>)"
  proof -
    fix s :: pstate and x assume s: "slots s = slots st2"
    show "reject (Suc (Suc k)) n x s = Inr (s\<lparr>trace := trace s @ [Called ne x]\<rparr>)"
      using s s2n s2m len2 n m len1
      by (intro reject_reaches_handler[where eh = eh and m = m]) (simp_all add: empty_slot_def)
  qed
  have next1: "\<And>(s::pstate) x. slots s = slots st1 \<Longrightarrow> reject (Suc k) n x s = Inr s"
    using s1n len1 n by (simp add: empty_slot_def)
  have A: "call_fn (Suc (Suc k)) f v st2 = Inr (Throws e, s') \<longrightarrow>
       resolve (Suc (Suc (Suc k))) d v st2 = Inr (s'\<lparr>trace := trace s' @ [Called ne e]\<rparr>) \<and>
       slots s' = slots st2"
  proof
    assume c: "call_fn (Suc (Suc k)) f v st2 = Inr (Throws e, s')"
    then have sl: "slots s' = slots st2" by (rule call_fn_Throws_slots)
    have "resolve (Suc (Suc (Suc k))) d v st2 = reject (Suc (Suc k)) n e s'"
      using s2d d len2 c by (simp del: reject.simps(2) call_fn.simps)
    with next2[OF sl] sl
    show "resolve (Suc (Suc (Suc k))) d v st2 = Inr (s'\<lparr>trace := trace s' @ [Called ne e]\<rparr>) \<and>
       slots s' = slots st2" by simp
  qed
  have B: "call_fn (Suc (Suc k)) (default_errback g) v st2 = Inr (Throws e, s') \<longrightarrow>
       reject (Suc (Suc (Suc k))) d v st2 = Inr (s'\<lparr>trace := trace s' @ [Called ne e]\<rparr>) \<and>
       slots s' = slots st2"
  proof
    assume c: "call_fn (Suc (Suc k)) (default_errback g) v st2 = Inr (Throws e, s')"
    then have sl: "slots s' = slots st2" by (rule call_fn_Throws_slots)
    have "reject (Suc (Suc (Suc k))) d v st2 = reject (Suc (Suc k)) n e s'"
      using s2d d len2 c
      by (simp del: reject.simps(2) call_fn.simps add: reject.simps(2)[of "Suc (Suc k)"])
    with next2[OF sl] sl
    show "reject (Suc (Suc (Suc k))) d v st2 = Inr (s'\<lparr>trace := trace s' @ [Called ne e]\<rparr>) \<and>
       slots s' = slots st2" by simp
  qed
  have C: "f = UserFn nf ff \<and> ff v = Throws e \<longrightarrow>
       resolve (Suc (Suc (Suc k))) d v st2 =
         Inr (st2\<lparr>trace := trace st2 @ [Called nf v, Called ne e]\<rparr>) \<and>
       resolve (Suc (Suc k)) d v st1 = Inr (st1\<lparr>trace := trace st1 @ [Called nf v]\<rparr>)"
  proof
    assume h: "f = UserFn nf ff \<and> ff v = Throws e"
    have one: "resolve (Suc (Suc (Suc k))) d v st2 =
         Inr (st2\<lparr>trace := trace st2 @ [Called nf v, Called ne e]\<rparr>)"
      using s2d d len2 h next2[of "st2\<lparr>trace := trace st2 @ [Called nf v]\<rparr>" e]
      by (simp del: reject.simps(2))
    have two: "resolve (Suc (Suc k)) d v st1 = Inr (st1\<lparr>trace := trace st1 @ [Called nf v]\<rparr>)"
      using s1d d len1 h next1[of "st1\<lparr>trace := trace st1 @ [Called nf v]\<rparr>" e]
      by (simp del: reject.simps(2))
    from one two show "resolve (Suc (Suc (Suc k))) d v st2 =
         Inr (st2\<lparr>trace := trace st2 @ [Called nf v, Called ne e]\<rparr>) \<and>
       resolve (Suc (Suc k)) d v st1 = Inr (st1\<lparr>trace := trace st1 @ [Called nf v]\<rparr>)"
      by blast
  qed
  have D: "g = Some (UserFn ng gf) \<and> gf v = Throws e \<longrightarrow>
       reject (Suc (Suc (Suc k))) d v st2 =
         Inr (st2\<lparr>trace := trace st2 @ [Called ng v, Called ne e]\<rparr>) \<and>
       reject (Suc (Suc k)) d v st1 = Inr (st1\<lparr>trace := trace st1 @ [Called ng v]\<rparr>)"
  proof
    assume h: "g = Some (UserFn ng gf) \<and> gf v = Throws e"
    have one: "reject (Suc (Suc (Suc k))) d v st2 =
         Inr (st2\<lparr>trace := trace st2 @ [Called ng v, Called ne e]\<rparr>)"
      using s2d d len2 h next2[of "st2\<lparr>trace := trace st2 @ [Called ng v]\<rparr>" e]
      by (simp del: reject.simps(2) add: reject.simps(2)[of "Suc (Suc k)"] default_errback_def)
    have two: "reject (Suc (Suc k)) d v st1 = Inr (st1\<lparr>trace := trace st1 @ [Called ng v]\<rparr>)"
      using s1d d len1 h next1[of "st1\<lparr>trace := trace st1 @ [Called ng v]\<rparr>" e]
      by (simp del: reject.simps(2) add: reject.simps(2)[of "Suc k"] default_errback_def)
    from one two show "reject (Suc (Suc (Suc k))) d v st2 =
         Inr (st2\<lparr>trace := trace st2 @ [Called ng v, Called ne e]\<rparr>) \<and>
       reject (Suc (Suc k)) d v st1 = Inr (st1\<lparr>trace := trace st1 @ [Called ng v]\<rparr>)"
      by blast
  qed
  from nd A B C D show ?thesis by blast
qed

text \<open>
  C7 at an input: one deferred; \<open>then(f, g)\<close> where both handlers, \<open>0\<close> and \<open>1\<close>, throw what
  they receive; then \<open>then(b, errHandler)\<close> with the handlers \<open>2\<close> and \<open>3\<close>.
\<close>

theorem C7_handler_throw_rejects_next_promise_witness:
  "then_p 0 (UserFn 0 Throws) (Some (UserFn 1 Throws)) one_deferred = Inr (1, both_throw) \<and>
   then_p 1 (UserFn 2 Returns) (Some (UserFn 3 Returns)) both_throw =
     Inr (2, both_throw_chained) \<and>
   (1::nat) \<noteq> 0 \<and>
   call_fn 2 (UserFn 0 Throws) (VNum 7) both_throw_chained =
     Inr (Throws (VNum 7), both_throw_chained\<lparr>trace := [Called 0 (VNum 7)]\<rparr>) \<and>
   call_fn 2 (default_errback (Some (UserFn 1 Throws))) (VNum 7) both_throw_chained =
     Inr (Throws (VNum 7), both_throw_chained\<lparr>trace := [Called 1 (VNum 7)]\<rparr>) \<and>
   Throws (VNum 7) = Throws (VNum 7) \<and>
   resolve 3 0 (VNum 7) both_throw_chained =
     Inr (both_throw_chained\<lparr>trace := [Called 0 (VNum 7), Called 3 (VNum 7)]\<rparr>) \<and>
   resolve 2 0 (VNum 7) both_throw = Inr (both_throw\<lparr>trace := [Called 0 (VNum 7)]\<rparr>) \<and>
   reject 3 0 (VNum 7) both_throw_chained =
     Inr (both_throw_chained\<lparr>trace := [Called 1 (VNum 7), Called 3 (VNum 7)]\<rparr>) \<and>
   reject 2 0 (VNum 7) both_throw = Inr (both_throw\<lparr>trace := [Called 1 (VNum 7)]\<rparr>)"
proof -
  have t1: "then_p 0 (UserFn 0 Throws) (Some (UserFn 1 Throws)) one_deferred =
              Inr (1, both_throw)"
    by (simp add: one_deferred_def both_throw_def then_p_def defer_d_def init_pstate_def
          default_errback_def)
  have t2: "then_p 1 (UserFn 2 Returns) (Some (UserFn 3 Returns)) both_throw =
              Inr (2, both_throw_chained)"
    by (simp add: both_throw_def both_throw_chained_def then_p_def defer_d_def
          default_errback_def)
  have c1: "call_fn 2 (UserFn 0 Throws) (VNum 7) both_throw_chained =
     Inr (Throws (VNum 7), both_throw_chained\<lparr>trace := [Called 0 (VNum 7)]\<rparr>)"
    by (simp add: both_throw_chained_def)
  have c2: "call_fn 2 (default_errback (Some (UserFn 1 Throws))) (VNum 7) both_throw_chained =
     Inr (Throws (VNum 7), both_throw_chained\<lparr>trace := [Called 1 (VNum 7)]\<rparr>)"
    by (simp add: both_throw_chained_def default_errback_def)
  from C7_handler_throw_rejects_next_promise
         [OF t1 t2, where k = 0 and v = "VNum 7" and e = "VNum 7" and nf = 0 and ff = Throws
            and ng = 1 and gf = Throws
            and s' = "both_throw_chained\<lparr>trace := [Called 0 (VNum 7)]\<rparr>"]
       C7_handler_throw_rejects_next_promise
         [OF t1 t2, where k = 0 and v = "VNum 7" and e = "VNum 7" and nf = 0 and ff = Throws
            and ng = 1 and gf = Throws
            and s' = "both_throw_chained\<lparr>trace := [Called 1 (VNum 7)]\<rparr>"]
       t1 t2 c1 c2
  show ?thesis
    by (simp add: eval_nat_numeral both_throw_def both_throw_chained_def
          del: resolve.simps reject.simps call_fn.simps)
qed

subsection \<open>C8: settlement before registration\<close>

text \<open>
  C8, as stated, fails: one deferred, resolved with \<open>7\<close> while nothing is registered; the
  store is as before, and the \<open>then\<close> that follows calls neither of its handlers.
\<close>

theorem C8_late_registration_is_not_notified:
  "resolve 9 0 (VNum 7) one_deferred = Inr one_deferred \<and>
   map_sum id (trace \<circ> snd)
     (then_p 0 (UserFn 0 Returns) (Some (UserFn 1 Returns)) one_deferred) = Inr []"
  by (simp add: one_deferred_def defer_d_def init_pstate_def then_p_def empty_slot_def
        eval_nat_numeral)

text \<open>
  C8 as amended: \<open>resolve\<close> and \<open>reject\<close> on a deferred with no continuation pair
  registered leave the store as it is (the outcome is recorded nowhere), and a \<open>then\<close>
  that follows registers its pair and calls no handler: the pair is notified only by a
  settlement made after the registration.
\<close>

theorem C8_unregistered_settlement_is_dropped:
  assumes "d < length (slots st)"
      and "callback (slots st ! d) = None" and "errback (slots st ! d) = None"
  shows "resolve (Suc k) d v st = Inr st \<and> reject (Suc k) d e st = Inr st \<and>
         (\<exists>n st'. then_p d f g st = Inr (n, st') \<and> trace st' = trace st \<and>
            callback (slots st' ! d) = Some (f, n) \<and>
            errback (slots st' ! d) = Some (default_errback g, n))"
  using assms by (simp add: then_p_def defer_d_def)

theorem C8_unregistered_settlement_is_dropped_witness:
  "(0::nat) < length (slots one_deferred) \<and>
   callback (slots one_deferred ! 0) = None \<and> errback (slots one_deferred ! 0) = None \<and>
   resolve 1 0 (VNum 7) one_deferred = Inr one_deferred \<and>
   reject 1 0 (VStr ''e'') one_deferred = Inr one_deferred \<and>
   (\<exists>n st'. then_p 0 (UserFn 0 Returns) None one_deferred = Inr (n, st') \<and>
      trace st' = trace one_deferred \<and>
      callback (slots st' ! 0) = Some (UserFn 0 Returns, n) \<and>
      errback (slots st' ! 0) = Some (default_errback None, n))"
proof -
  have h: "(0::nat) < length (slots one_deferred)"
    "callback (slots one_deferred ! 0) = None" "errback (slots one_deferred ! 0) = None"
    by (simp_all add: one_deferred_def defer_d_def init_pstate_def empty_slot_def)
  from C8_unregistered_settlement_is_dropped[OF h, of 0 "VNum 7" "VStr ''e''"
         "UserFn 0 Returns" None] h
  show ?thesis by (simp del: resolve.simps reject.simps)
qed

section \<open>Properties of the coroutine runner and the thunk aggregator\<close>

subsection \<open>The aggregate call\<close>

lemma start_members_thunks:
  "list_all is_thunk arr \<Longrightarrow>
   start_members f arr i st =
     (None, st\<lparr>inflight := inflight st @ map (\<lambda>(j, m). member_op f j m) (enumerate i arr),
               log := log st @ map (\<lambda>m. Started (thunk_name m)) arr\<rparr>)"
proof (induction arr arbitrary: i st)
  case Nil
  then show ?case by simp
next
  case (Cons m ms)
  then obtain n e r where m: "m = VFun n e r" by (cases m) auto
  from Cons show ?case
    by (simp add: m start_op_def member_op_def)
qed

lemma enumerate_members:
  "map (\<lambda>(j, m). member_op f j m) (enumerate 0 arr) = map (member_at f arr) [0..<length arr]"
  by (rule nth_equalityI) (simp_all add: nth_enumerate_eq member_at_def)

lemma list_update_map_upt:
  "k < n \<Longrightarrow> (map f [0..<n])[k := v] = map (f(k := v)) [0..<n]"
  by (rule nth_equalityI) (auto simp: nth_list_update)

lemma member_done_step:
  assumes "k < n" "k \<notin> S" "finite S" "\<not> truthy e"
  shows "member_done (frame_after n R S) k e (R k) =
           (frame_after n R (insert k S),
            if int n - int (card S) - 1 \<noteq> 0 then None
            else Some (VNull, VArr (results (frame_after n R (insert k S)))))"
  using assms
  by (auto simp: member_done_def frame_after_def list_update_map_upt Let_def fun_upd_def
           intro!: arg_cong2[where f=map])

lemma new_frame_frame_after:
  "new_frame arr = frame_after (length arr) (\<lambda>i. thunk_res (arr ! i)) {}"
  by (simp add: new_frame_def frame_after_def map_replicate_const)

lemma mset_upt_props:
  assumes "mset xs = mset [0..<n]"
  shows "distinct xs" "set xs = {..<n}" "length xs = n"
proof -
  have "distinct xs = distinct [0..<n]" by (rule mset_eq_imp_distinct_iff[OF assms])
  then show "distinct xs" by simp
  have "set xs = set [0..<n]" by (rule mset_eq_setD[OF assms])
  then show "set xs = {..<n}" by (simp add: lessThan_atLeast0)
  have "length xs = length [0..<n]" by (rule mset_eq_length[OF assms])
  then show "length xs = n" by simp
qed

lemma remove1_map_inj:
  "inj_on f (insert x (set xs)) \<Longrightarrow> remove1 (f x) (map f xs) = map f (remove1 x xs)"
  by (induction xs) (auto simp: inj_on_def)

lemma remove1_filter_upt:
  "remove1 k (filter P [0..<n]) = filter (\<lambda>j. P j \<and> j \<noteq> k) [0..<n]"
proof -
  have "remove1 k (filter P [0..<n]) = removeAll k (filter P [0..<n])"
    by (simp add: distinct_remove1_removeAll)
  also have "\<dots> = filter (\<lambda>j. k \<noteq> j) (filter P [0..<n])"
    by (simp add: removeAll_filter_not_eq)
  also have "\<dots> = filter (\<lambda>j. P j \<and> j \<noteq> k) [0..<n]"
    by (auto intro: filter_cong)
  finally show ?thesis .
qed

lemma member_at_inj: "inj (member_at f arr)"
  by (auto simp: inj_on_def member_at_def member_op_def)

lemma unrelated_member_at: "list_all (unrelated f) pre \<Longrightarrow> member_at f arr k \<notin> set pre"
  by (auto simp: list_all_iff unrelated_def member_at_def member_op_def)

lemma complete_member_step:
  fixes st :: "'g rstate"
  assumes pre: "list_all (unrelated (length fs)) pre"
      and k: "k < length arr" "k \<notin> S" and fin: "finite S"
      and ok: "\<not> truthy (thunk_err (arr ! k))"
      and infl: "inflight st =
                   pre @ map (member_at (length fs) arr) (filter (\<lambda>j. j \<notin> S) [0..<length arr])"
      and fr: "frames st = fs @ [frame_after (length arr) (\<lambda>i. thunk_res (arr ! i)) S]"
  shows "complete step (member_at (length fs) arr k) st =
           Some (if int (length arr) - int (card S) - 1 \<noteq> 0
                 then (None,
                       st\<lparr>inflight := pre @ map (member_at (length fs) arr)
                                             (filter (\<lambda>j. j \<notin> insert k S) [0..<length arr]),
                          frames := fs @ [frame_after (length arr) (\<lambda>i. thunk_res (arr ! i))
                                            (insert k S)]\<rparr>)
                 else run_cb step VNull
                        (VArr (results (frame_after (length arr) (\<lambda>i. thunk_res (arr ! i))
                                          (insert k S))))
                        (st\<lparr>inflight := pre @ map (member_at (length fs) arr)
                                              (filter (\<lambda>j. j \<notin> insert k S) [0..<length arr]),
                           frames := fs @ [frame_after (length arr) (\<lambda>i. thunk_res (arr ! i))
                                             (insert k S)]\<rparr>))"
proof -
  let ?f = "length fs" and ?n = "length arr" and ?R = "\<lambda>i. thunk_res (arr ! i)"
  let ?mk = "member_at ?f arr"
  have mem: "?mk k \<in> set (inflight st)" using k by (simp add: infl)
  have notpre: "?mk k \<notin> set pre" by (rule unrelated_member_at[OF pre])
  have "remove1 (?mk k) (map ?mk (filter (\<lambda>j. j \<notin> S) [0..<?n])) =
          map ?mk (remove1 k (filter (\<lambda>j. j \<notin> S) [0..<?n]))"
    by (rule remove1_map_inj) (rule inj_on_subset[OF member_at_inj], simp)
  also have "\<dots> = map ?mk (filter (\<lambda>j. j \<notin> insert k S) [0..<?n])"
    by (simp add: remove1_filter_upt conj_commute)
  finally have rem: "remove1 (?mk k) (inflight st) =
      pre @ map ?mk (filter (\<lambda>j. j \<notin> insert k S) [0..<?n])"
    using notpre by (simp add: infl remove1_append)
  have cb: "op_cb (?mk k) = MemberCb ?f k" "op_err (?mk k) = thunk_err (arr ! k)"
    "op_res (?mk k) = thunk_res (arr ! k)"
    by (simp_all add: member_at_def member_op_def)
  have md: "member_done (frame_after ?n ?R S) k (thunk_err (arr ! k)) (thunk_res (arr ! k)) =
           (frame_after ?n ?R (insert k S),
            if int ?n - int (card S) - 1 \<noteq> 0 then None
            else Some (VNull, VArr (results (frame_after ?n ?R (insert k S)))))"
    using member_done_step[OF k fin ok, of ?R] by simp
  show ?thesis
    using mem by (simp add: complete_def rem cb member_cb_def fr md)
qed

lemma complete_all_members:
  fixes st :: "'g rstate"
  assumes pre: "list_all (unrelated (length fs)) pre"
      and ok: "list_all succeeds arr"
      and ks: "distinct ks" "set ks \<inter> S = {}" "set ks \<subseteq> {..<length arr}"
      and S: "finite S" "card S + length ks < length arr"
      and infl: "inflight st =
                   pre @ map (member_at (length fs) arr) (filter (\<lambda>j. j \<notin> S) [0..<length arr])"
      and fr: "frames st = fs @ [frame_after (length arr) (\<lambda>i. thunk_res (arr ! i)) S]"
  shows "complete_all step (map (member_at (length fs) arr) ks) st =
           Some (None,
                 st\<lparr>inflight := pre @ map (member_at (length fs) arr)
                                       (filter (\<lambda>j. j \<notin> S \<union> set ks) [0..<length arr]),
                    frames := fs @ [frame_after (length arr) (\<lambda>i. thunk_res (arr ! i))
                                      (S \<union> set ks)]\<rparr>)"
  using ks S infl fr
proof (induction ks arbitrary: S st)
  case Nil
  then show ?case using Nil.prems(6,7)[symmetric] by simp
next
  case (Cons k ks)
  let ?f = "length fs" and ?n = "length arr" and ?R = "\<lambda>i. thunk_res (arr ! i)"
  let ?st' = "st\<lparr>inflight := pre @ map (member_at ?f arr) (filter (\<lambda>j. j \<notin> insert k S) [0..<?n]),
                 frames := fs @ [frame_after ?n ?R (insert k S)]\<rparr>"
  have k: "k < ?n" "k \<notin> S" using Cons.prems by auto
  have okk: "\<not> truthy (thunk_err (arr ! k))"
    using ok k by (simp add: list_all_length succeeds_def)
  have ne: "int ?n - int (card S) - 1 \<noteq> 0" using Cons.prems(5) by simp
  have step: "complete step (member_at ?f arr k) st = Some (None, ?st')"
    using complete_member_step[OF pre k Cons.prems(4) okk Cons.prems(6) Cons.prems(7), of step] ne
    by simp
  have card: "card (insert k S) = Suc (card S)" using k Cons.prems(4) by simp
  have IH: "complete_all step (map (member_at ?f arr) ks) ?st' =
           Some (None,
                 ?st'\<lparr>inflight := pre @ map (member_at ?f arr)
                                       (filter (\<lambda>j. j \<notin> insert k S \<union> set ks) [0..<?n]),
                    frames := fs @ [frame_after ?n ?R (insert k S \<union> set ks)]\<rparr>)"
    using Cons.prems k card by (intro Cons.IH) auto
  show ?case using step IH by simp
qed

lemma filter_eq_upt: "k < n \<Longrightarrow> filter (\<lambda>j. j = k) [0..<n] = [k]"
  by (induction n) (auto simp: less_Suc_eq)

lemma last_member_left:
  assumes "set ks = {..<n} - {k}" "k < n"
  shows "filter (\<lambda>j. j \<notin> set ks) [0..<n] = [k]"
proof -
  have "filter (\<lambda>j. j \<notin> set ks) [0..<n] = filter (\<lambda>j. j = k) [0..<n]"
    using assms by (intro filter_cong) auto
  then show ?thesis using assms by (simp add: filter_eq_upt)
qed

lemma frame_after_all_but_one:
  assumes "set ks = {..<length arr} - {k}" "k < length arr" "distinct ks"
  shows "frame_after (length arr) (\<lambda>i. thunk_res (arr ! i)) (set ks) =
           \<lparr>pending = 1, results = (map thunk_res arr)[k := VUndefined]\<rparr>"
proof -
  have "card (set ks) = length arr - 1" using assms by simp
  then have p: "int (length arr) - int (card (set ks)) = 1" using assms(2) by simp
  have r: "map (\<lambda>i. if i \<in> set ks then thunk_res (arr ! i) else VUndefined) [0..<length arr] =
           (map thunk_res arr)[k := VUndefined]"
    using assms by (intro nth_equalityI) (auto simp: nth_list_update)
  show ?thesis using p r by (simp add: frame_after_def)
qed

lemma frame_after_all:
  "frame_after (length arr) (\<lambda>i. thunk_res (arr ! i)) {..<length arr} =
     \<lparr>pending = 0, results = map thunk_res arr\<rparr>"
proof -
  have "map (\<lambda>i. if i \<in> {..<length arr} then thunk_res (arr ! i) else VUndefined) [0..<length arr] =
        map thunk_res arr"
    by (intro nth_equalityI) auto
  then show ?thesis by (simp add: frame_after_def)
qed


subsection \<open>The states that a run reaches\<close>

text \<open>
  In every state that a run reaches, a member callback in flight belongs to a frame that
  exists. So the last branch of \<open>member_cb\<close> is never taken, and no operation in flight
  belongs to the frame that the next aggregate call will make.
\<close>

lemma cb_in_range_mono: "cb_in_range n p \<Longrightarrow> n \<le> m \<Longrightarrow> cb_in_range m p"
  by (auto simp: cb_in_range_def split: cb.splits)

lemma start_members_frames_exist:
  "list_all (cb_in_range n) (inflight st) \<Longrightarrow> f < n \<Longrightarrow>
   list_all (cb_in_range n) (inflight (snd (start_members f arr i st))) \<and>
   frames (snd (start_members f arr i st)) = frames st"
proof (induction arr arbitrary: i st)
  case Nil
  then show ?case by simp
next
  case (Cons m ms)
  show ?case
  proof (cases m)
    case (VFun n' e r)
    have "cb_in_range n \<lparr>op_name = n', op_err = e, op_res = r, op_cb = MemberCb f i\<rparr>"
      using Cons.prems(2) by (simp add: cb_in_range_def)
    then have "list_all (cb_in_range n) (inflight (start_op n' e r (MemberCb f i) st))"
      using Cons.prems by (simp add: start_op_def)
    from Cons.IH[OF this Cons.prems(2), of "Suc i"] VFun show ?thesis
      by (simp add: start_op_def)
  qed (use Cons.prems in simp_all)
qed

lemma call_thunk_frames_exist:
  assumes "frames_exist st"
  shows "frames_exist (snd (call_thunk t st))"
proof (cases t)
  case (Plain n e r)
  have "cb_in_range (length (frames st)) \<lparr>op_name = n, op_err = e, op_res = r, op_cb = RunCb\<rparr>"
    by (simp add: cb_in_range_def)
  with Plain assms show ?thesis
    by (simp add: call_thunk_def start_op_def frames_exist_def)
next
  case (ArrayThunk arr)
  let ?st = "st\<lparr>frames := frames st @ [new_frame arr]\<rparr>"
  have "list_all (cb_in_range (Suc (length (frames st)))) (inflight ?st)"
    using assms by (auto simp: frames_exist_def list_all_iff intro: cb_in_range_mono)
  from start_members_frames_exist[OF this, of "length (frames st)" arr 0]
  show ?thesis using ArrayThunk
    by (simp add: call_thunk_def arrayToThunk_def frames_exist_def)
qed

lemma gen_next_frames_exist:
  "frames_exist st \<Longrightarrow> frames_exist (snd (gen_next step v st))"
  by (simp add: gen_next_def frames_exist_def Let_def split: option.splits gres.splits)

lemma gen_throw_frames_exist:
  "frames_exist st \<Longrightarrow> frames_exist (snd (gen_throw step v st))"
  by (simp add: gen_throw_def frames_exist_def Let_def split: option.splits gres.splits)

lemma run_next_frames_exist:
  assumes "frames_exist st"
  shows "frames_exist (snd (run_next step v st))"
proof -
  obtain r st1 where g: "gen_next step v st = (r, st1)" by (cases "gen_next step v st")
  then have i: "frames_exist st1" using gen_next_frames_exist[OF assms, of step v] by simp
  show ?thesis
  proof (cases r)
    case (Inl e)
    with g i show ?thesis by (simp add: run_next_def)
  next
    case (Inr rt)
    obtain w dn where rt: "rt = Ret w dn" by (cases rt)
    show ?thesis
    proof (cases "toThunk w")
      case (Inl e)
      with g i Inr rt show ?thesis by (simp add: run_next_def)
    next
      case t: (Inr t)
      from call_thunk_frames_exist[OF i, of t] g i Inr rt t show ?thesis
        by (simp add: run_next_def)
    qed
  qed
qed

lemma run_cb_frames_exist:
  assumes "frames_exist st"
  shows "frames_exist (snd (run_cb step e r st))"
proof (cases "truthy e")
  case False
  then show ?thesis by (simp add: run_cb_def run_next_frames_exist[OF assms])
next
  case True
  obtain x st1 where g: "gen_throw step e st = (x, st1)" by (cases "gen_throw step e st")
  then have i: "frames_exist st1" using gen_throw_frames_exist[OF assms, of step e] by simp
  show ?thesis
  proof (cases x)
    case (Inl a)
    with True g i show ?thesis by (simp add: run_cb_def)
  next
    case (Inr b)
    from run_next_frames_exist[OF i, of step r] True g Inr show ?thesis
      by (simp add: run_cb_def)
  qed
qed

lemma member_cb_frames_exist:
  assumes "frames_exist st"
  shows "frames_exist (snd (member_cb step f index e r st))"
proof (cases "f < length (frames st)")
  case False
  with assms show ?thesis by (simp add: member_cb_def)
next
  case True
  obtain fr d where md: "member_done (frames st ! f) index e r = (fr, d)"
    by (cases "member_done (frames st ! f) index e r")
  have i: "frames_exist (st\<lparr>frames := (frames st)[f := fr]\<rparr>)"
    using assms by (simp add: frames_exist_def)
  show ?thesis
  proof (cases d)
    case None
    with True md i show ?thesis by (simp add: member_cb_def)
  next
    case (Some c)
    obtain e' r' where c: "c = (e', r')" by (cases c)
    from run_cb_frames_exist[OF i, of step e' r'] True md Some c show ?thesis
      by (simp add: member_cb_def)
  qed
qed

lemma complete_frames_exist:
  assumes "frames_exist st" and "complete step p st = Some (e, st')"
  shows "frames_exist st'"
proof -
  let ?st1 = "st\<lparr>inflight := remove1 p (inflight st)\<rparr>"
  have i: "frames_exist ?st1"
    using assms(1) by (auto simp: frames_exist_def list_all_iff dest: notin_set_remove1)
  show ?thesis
  proof (cases "op_cb p")
    case RunCb
    from run_cb_frames_exist[OF i, of step "op_err p" "op_res p"] assms(2) RunCb
    show ?thesis by (auto simp: complete_def split: if_splits)
  next
    case (MemberCb f index)
    from member_cb_frames_exist[OF i, of step f index "op_err p" "op_res p"] assms(2) MemberCb
    show ?thesis by (auto simp: complete_def split: if_splits)
  qed
qed

lemma reachable_frames_exist: "reachable step g st \<Longrightarrow> frames_exist st"
proof (induction rule: reachable.induct)
  case after_run
  have "frames_exist (init_rstate g)" by (simp add: frames_exist_def init_rstate_def)
  then show ?case unfolding run_def by (rule run_next_frames_exist)
next
  case (after_completion st p e st')
  then show ?case by (auto intro: complete_frames_exist)
qed

lemma frames_exist_unrelated:
  "frames_exist st \<Longrightarrow> list_all (unrelated (length (frames st))) (inflight st)"
  by (auto simp: frames_exist_def list_all_iff cb_in_range_def unrelated_def split: cb.splits)

lemma frames_exist_member:
  "frames_exist st \<Longrightarrow> p \<in> set (inflight st) \<Longrightarrow> op_cb p = MemberCb f index \<Longrightarrow>
   f < length (frames st)"
  by (auto simp: frames_exist_def list_all_iff cb_in_range_def split: cb.splits)

subsection \<open>C4: fan-out and fan-in\<close>

text \<open>
  C4: for an array whose members are all thunks, the call of the aggregate thunk starts
  every member, in index order, and consumes no completion: it returns with the generator
  untouched, a new frame, and all members in flight. When every member succeeds and the
  members complete in any order \<open>ks @ [k]\<close> (a permutation of the indices), the completions of
  \<open>ks\<close> only fill the frame: no callback of the runner is called, the log and the generator
  stay as they were, and only member \<open>k\<close> is left in flight. The completion of \<open>k\<close>, the last
  one, is the call of \<open>done\<close>, the callback of \<open>next\<close>, with \<open>null\<close> and the array of the
  members' results at their own indices. (With no member there is no last completion.) The
  hypothesis on the operations already in flight holds in every state that a run reaches
  (\<open>reachable_frames_exist\<close>, \<open>frames_exist_unrelated\<close>): none of them belongs to a frame
  that does not exist yet.
\<close>

theorem C4_fan_out_fan_in:
  fixes st :: "'g rstate"
  assumes thunks: "list_all is_thunk arr"
      and wf: "list_all (unrelated (length (frames st))) (inflight st)"
  shows "arrayToThunk arr st = (None, all_started arr st) \<and>
         (list_all succeeds arr \<and> mset (ks @ [k]) = mset [0..<length arr] \<longrightarrow>
            complete_all step (map (member_at (length (frames st)) arr) ks) (all_started arr st) =
              Some (None,
                    (all_started arr st)
                      \<lparr>inflight := inflight st @ [member_at (length (frames st)) arr k],
                       frames := frames st @
                         [\<lparr>pending = 1, results = (map thunk_res arr)[k := VUndefined]\<rparr>]\<rparr>) \<and>
            complete step (member_at (length (frames st)) arr k)
              ((all_started arr st)
                 \<lparr>inflight := inflight st @ [member_at (length (frames st)) arr k],
                  frames := frames st @
                    [\<lparr>pending = 1, results = (map thunk_res arr)[k := VUndefined]\<rparr>]\<rparr>) =
              Some (run_cb step VNull (VArr (map thunk_res arr))
                      ((all_started arr st)
                         \<lparr>inflight := inflight st,
                          frames := frames st @
                            [\<lparr>pending = 0, results = map thunk_res arr\<rparr>]\<rparr>)))"
proof -
  let ?n = "length arr" and ?f = "length (frames st)" and ?R = "\<lambda>i. thunk_res (arr ! i)"
  let ?mk = "member_at ?f arr"
  let ?st1 = "all_started arr st"
  let ?mid = "?st1\<lparr>inflight := inflight st @ [?mk k],
                   frames := frames st @
                     [\<lparr>pending = 1, results = (map thunk_res arr)[k := VUndefined]\<rparr>]\<rparr>"
  have start: "arrayToThunk arr st = (None, ?st1)"
    by (simp add: arrayToThunk_def start_members_thunks[OF thunks] enumerate_members
          all_started_def)
  have fanin: "complete_all step (map ?mk ks) ?st1 = Some (None, ?mid) \<and>
      complete step (?mk k) ?mid =
        Some (run_cb step VNull (VArr (map thunk_res arr))
                (?st1\<lparr>inflight := inflight st,
                      frames := frames st @ [\<lparr>pending = 0, results = map thunk_res arr\<rparr>]\<rparr>))"
    if ok: "list_all succeeds arr" and perm: "mset (ks @ [k]) = mset [0..<?n]"
  proof -
    note p = mset_upt_props[OF perm]
    from p have dks: "distinct ks" and kn: "k < ?n" and knot: "k \<notin> set ks"
      and sks: "set ks = {..<?n} - {k}" and lks: "Suc (length ks) = ?n"
      by auto
    have infl1: "inflight ?st1 =
        inflight st @ map ?mk (filter (\<lambda>j. j \<notin> {}) [0..<?n])"
      by (simp add: all_started_def)
    have fr1: "frames ?st1 = frames st @ [frame_after ?n ?R {}]"
      by (simp add: all_started_def new_frame_frame_after)
    have "complete_all step (map ?mk ks) ?st1 =
           Some (None,
                 ?st1\<lparr>inflight := inflight st @ map ?mk (filter (\<lambda>j. j \<notin> {} \<union> set ks) [0..<?n]),
                      frames := frames st @ [frame_after ?n ?R ({} \<union> set ks)]\<rparr>)"
      using dks sks lks by (intro complete_all_members[OF wf ok _ _ _ _ _ infl1 fr1]) auto
    then have one: "complete_all step (map ?mk ks) ?st1 = Some (None, ?mid)"
      by (simp add: last_member_left[OF sks kn] frame_after_all_but_one[OF sks kn dks])
    have okk: "\<not> truthy (thunk_err (arr ! k))"
      using ok kn by (simp add: list_all_length succeeds_def)
    have inflm: "inflight ?mid = inflight st @ map ?mk (filter (\<lambda>j. j \<notin> set ks) [0..<?n])"
      by (simp add: last_member_left[OF sks kn])
    have frm: "frames ?mid = frames st @ [frame_after ?n ?R (set ks)]"
      by (simp add: frame_after_all_but_one[OF sks kn dks])
    have ins: "insert k (set ks) = {..<?n}" using sks kn by auto
    have zero: "int ?n - int (card (set ks)) - 1 = 0"
      using lks dks by (simp add: distinct_card)
    have two: "complete step (?mk k) ?mid =
        Some (run_cb step VNull (VArr (map thunk_res arr))
                (?st1\<lparr>inflight := inflight st,
                      frames := frames st @ [\<lparr>pending = 0, results = map thunk_res arr\<rparr>]\<rparr>))"
      using complete_member_step[OF wf kn knot _ okk inflm frm, of step] zero
      by (simp add: ins frame_after_all)
    from one two show ?thesis by blast
  qed
  from start fanin show ?thesis by blast
qed

text \<open>
  C4 at an input: the generator has yielded \<open>[slow, fast, medium]\<close>, and the members complete
  in the order fast, medium, slow. The generator is resumed once, with the three results in
  the order of the array.
\<close>

theorem C4_fan_out_fan_in_witness:
  "list_all is_thunk slow_fast_medium \<and>
   list_all (unrelated (length (frames awaiting))) (inflight awaiting) \<and>
   arrayToThunk slow_fast_medium awaiting = (None, all_started slow_fast_medium awaiting) \<and>
   list_all succeeds slow_fast_medium \<and>
   mset ([1, 2] @ [0]) = mset [0..<length slow_fast_medium] \<and>
   complete_all (one_shot (VArr slow_fast_medium))
       [member_at 0 slow_fast_medium 1, member_at 0 slow_fast_medium 2]
       (all_started slow_fast_medium awaiting) =
     Some (None,
           \<lparr>gen = Some True,
            inflight = [member_at 0 slow_fast_medium 0],
            frames = [\<lparr>pending = 1, results = [VUndefined, VStr ''fast'', VStr ''medium'']\<rparr>],
            log = [GenNext VUndefined, Started 1, Started 2, Started 3]\<rparr>) \<and>
   complete (one_shot (VArr slow_fast_medium)) (member_at 0 slow_fast_medium 0)
       \<lparr>gen = Some True,
        inflight = [member_at 0 slow_fast_medium 0],
        frames = [\<lparr>pending = 1, results = [VUndefined, VStr ''fast'', VStr ''medium'']\<rparr>],
        log = [GenNext VUndefined, Started 1, Started 2, Started 3]\<rparr> =
     Some (None,
           \<lparr>gen = None,
            inflight = [],
            frames = [\<lparr>pending = 0, results = [VStr ''slow'', VStr ''fast'', VStr ''medium'']\<rparr>],
            log = [GenNext VUndefined, Started 1, Started 2, Started 3,
                   GenNext (VArr [VStr ''slow'', VStr ''fast'', VStr ''medium''])]\<rparr>)"
proof -
  have h: "list_all is_thunk slow_fast_medium"
    "list_all (unrelated (length (frames awaiting))) (inflight awaiting)"
    "list_all succeeds slow_fast_medium"
    by (simp_all add: slow_fast_medium_def succeeds_def awaiting_def)
  have p: "mset ([1, 2] @ [0]) = mset [0..<length slow_fast_medium]"
    by (simp add: slow_fast_medium_def upt_rec)
  have f: "length (frames awaiting) = 0" by (simp add: awaiting_def)
  from C4_fan_out_fan_in[OF h(1) h(2), of "[1, 2]" 0 "one_shot (VArr slow_fast_medium)"] h p
  show ?thesis
    by (simp add: f all_started_def awaiting_def slow_fast_medium_def member_at_def new_frame_def
          run_cb_def run_next_def gen_next_def eval_nat_numeral upt_rec)
qed

subsection \<open>C5: a member that fails\<close>

lemma start_members_prefix:
  "prefix (inflight st) (inflight (snd (start_members f arr i st)))"
proof (induction arr arbitrary: i st)
  case Nil
  then show ?case by simp
next
  case (Cons m ms)
  show ?case
  proof (cases m)
    case (VFun n e r)
    have "prefix (inflight st) (inflight (start_op n e r (MemberCb f i) st))"
      by (simp add: start_op_def)
    also have "prefix \<dots> (inflight (snd (start_members f ms (Suc i) (start_op n e r (MemberCb f i) st))))"
      by (rule Cons.IH)
    finally show ?thesis using VFun by simp
  qed simp_all
qed

lemma gen_next_inflight: "inflight (snd (gen_next step v st)) = inflight st"
  by (simp add: gen_next_def Let_def split: option.splits gres.splits)

lemma gen_throw_inflight: "inflight (snd (gen_throw step v st)) = inflight st"
  by (simp add: gen_throw_def Let_def split: option.splits gres.splits)

lemma call_thunk_prefix: "prefix (inflight st) (inflight (snd (call_thunk t st)))"
proof (cases t)
  case (Plain n e r)
  then show ?thesis by (simp add: call_thunk_def start_op_def)
next
  case (ArrayThunk arr)
  have "prefix (inflight (st\<lparr>frames := frames st @ [new_frame arr]\<rparr>))
          (inflight (snd (start_members (length (frames st)) arr 0 (st\<lparr>frames := frames st @ [new_frame arr]\<rparr>))))"
    by (rule start_members_prefix)
  then show ?thesis using ArrayThunk by (simp add: call_thunk_def arrayToThunk_def)
qed

lemma run_next_prefix: "prefix (inflight st) (inflight (snd (run_next step v st)))"
proof -
  obtain r st1 where g: "gen_next step v st = (r, st1)" by (cases "gen_next step v st")
  then have i: "inflight st1 = inflight st" using gen_next_inflight[of step v st] by simp
  show ?thesis
  proof (cases r)
    case (Inl e)
    with g i show ?thesis by (simp add: run_next_def)
  next
    case (Inr rt)
    obtain w dn where rt: "rt = Ret w dn" by (cases rt)
    show ?thesis
    proof (cases "dn")
      case True
      with g i Inr rt show ?thesis by (simp add: run_next_def)
    next
      case False
      show ?thesis
      proof (cases "toThunk w")
        case (Inl e)
        with g i Inr rt False show ?thesis by (simp add: run_next_def)
      next
        case (Inr t)
        have "prefix (inflight st1) (inflight (snd (call_thunk t st1)))" by (rule call_thunk_prefix)
        with g i \<open>r = Inr rt\<close> rt False Inr show ?thesis by (simp add: run_next_def)
      qed
    qed
  qed
qed

lemma run_cb_prefix: "prefix (inflight st) (inflight (snd (run_cb step e r st)))"
proof (cases "truthy e")
  case False
  then show ?thesis by (simp add: run_cb_def run_next_prefix)
next
  case True
  obtain x st1 where g: "gen_throw step e st = (x, st1)" by (cases "gen_throw step e st")
  then have i: "inflight st1 = inflight st" using gen_throw_inflight[of step e st] by simp
  show ?thesis
  proof (cases x)
    case (Inl a)
    with True g i show ?thesis by (simp add: run_cb_def)
  next
    case (Inr b)
    have "prefix (inflight st1) (inflight (snd (run_next step r st1)))" by (rule run_next_prefix)
    with True g i Inr show ?thesis by (simp add: run_cb_def)
  qed
qed



text \<open>
  C5: when the operation of a member reports an error, its callback calls \<open>done\<close>, the
  callback of \<open>next\<close>, with that error, in the same step and whatever the other members
  have done; the operations that were in flight beside it are still in flight afterwards,
  in their order and with their callbacks. The frame of the callback exists in every state
  that a run reaches (\<open>reachable_frames_exist\<close>, \<open>frames_exist_member\<close>).
\<close>

theorem C5_member_failure_reported_at_once:
  assumes "p \<in> set (inflight st)"
      and "op_cb p = MemberCb f index"
      and "truthy (op_err p)"
      and "f < length (frames st)"
  shows "complete step p st =
           Some (run_cb step (op_err p) VUndefined (st\<lparr>inflight := remove1 p (inflight st)\<rparr>)) \<and>
         prefix (remove1 p (inflight st)) (inflight (snd (the (complete step p st))))"
proof -
  let ?st1 = "st\<lparr>inflight := remove1 p (inflight st)\<rparr>"
  have eq: "complete step p st = Some (run_cb step (op_err p) VUndefined ?st1)"
    using assms by (simp add: complete_def member_cb_def member_done_def Let_def)
  have "prefix (inflight ?st1) (inflight (snd (run_cb step (op_err p) VUndefined ?st1)))"
    by (rule run_cb_prefix)
  with eq show ?thesis by simp
qed

text \<open>
  C5 at an input: the generator yields \<open>[ok, missing]\<close> and does not catch; \<open>missing\<close>
  fails first. Its error is injected, escapes the generator, and \<open>ok\<close> is still in flight.
\<close>

theorem C5_member_failure_reported_at_once_witness:
  "member_at 0 ok_and_missing 1 \<in> set (inflight (all_started ok_and_missing awaiting)) \<and>
   op_cb (member_at 0 ok_and_missing 1) = MemberCb 0 1 \<and>
   truthy (op_err (member_at 0 ok_and_missing 1)) \<and>
   0 < length (frames (all_started ok_and_missing awaiting)) \<and>
   complete (one_shot (VArr ok_and_missing)) (member_at 0 ok_and_missing 1)
       (all_started ok_and_missing awaiting) =
     Some (Some (VErr ''ENOENT''),
           \<lparr>gen = None,
            inflight = [member_at 0 ok_and_missing 0],
            frames = [new_frame ok_and_missing],
            log = [GenNext VUndefined, Started 1, Started 2, GenThrow (VErr ''ENOENT'')]\<rparr>) \<and>
   prefix [member_at 0 ok_and_missing 0]
     (inflight (snd (the (complete (one_shot (VArr ok_and_missing)) (member_at 0 ok_and_missing 1)
                            (all_started ok_and_missing awaiting)))))"
proof -
  have st: "all_started ok_and_missing awaiting =
     \<lparr>gen = Some True,
      inflight = [member_at 0 ok_and_missing 0, member_at 0 ok_and_missing 1],
      frames = [new_frame ok_and_missing],
      log = [GenNext VUndefined, Started 1, Started 2]\<rparr>"
    by (simp add: all_started_def awaiting_def ok_and_missing_def upt_rec)
  have h: "member_at 0 ok_and_missing 1 \<in> set (inflight (all_started ok_and_missing awaiting))"
    "op_cb (member_at 0 ok_and_missing 1) = MemberCb 0 1"
    "truthy (op_err (member_at 0 ok_and_missing 1))"
    "0 < length (frames (all_started ok_and_missing awaiting))"
    unfolding st by (simp_all add: member_at_def member_op_def ok_and_missing_def)
  from C5_member_failure_reported_at_once[OF h, of "one_shot (VArr ok_and_missing)"] h
  show ?thesis
    unfolding st
    by (simp add: member_at_def member_op_def ok_and_missing_def run_cb_def gen_throw_def)
qed

subsection \<open>C9: the empty array\<close>

lemma unrelated_RunCb: "unrelated f \<lparr>op_name = n, op_err = e, op_res = r, op_cb = RunCb\<rparr>"
  by (simp add: unrelated_def)

lemma unrelated_MemberCb:
  "f' \<noteq> f \<Longrightarrow> unrelated f \<lparr>op_name = n, op_err = e, op_res = r, op_cb = MemberCb f' i\<rparr>"
  by (simp add: unrelated_def)

lemma start_members_sealed:
  "sealed f fr st \<Longrightarrow> f' \<noteq> f \<Longrightarrow> sealed f fr (snd (start_members f' arr i st))"
proof (induction arr arbitrary: i st)
  case Nil
  then show ?case by simp
next
  case (Cons m ms)
  show ?case
  proof (cases m)
    case (VFun n e r)
    have "sealed f fr (start_op n e r (MemberCb f' i) st)"
      using Cons.prems unrelated_MemberCb[of f' f n e r i] by (simp add: sealed_def start_op_def)
    from Cons.IH[OF this Cons.prems(2), of "Suc i"] VFun show ?thesis by simp
  qed (use Cons.prems in simp_all)
qed

lemma call_thunk_sealed:
  assumes "sealed f fr st"
  shows "sealed f fr (snd (call_thunk t st))"
proof (cases t)
  case (Plain n e r)
  with assms unrelated_RunCb[of f n e r] show ?thesis
    by (simp add: call_thunk_def start_op_def sealed_def)
next
  case (ArrayThunk arr)
  have "sealed f fr (st\<lparr>frames := frames st @ [new_frame arr]\<rparr>)"
    using assms by (simp add: sealed_def nth_append)
  moreover have "length (frames st) \<noteq> f" using assms by (simp add: sealed_def)
  ultimately have "sealed f fr (snd (start_members (length (frames st)) arr 0
                                       (st\<lparr>frames := frames st @ [new_frame arr]\<rparr>)))"
    by (rule start_members_sealed)
  with ArrayThunk show ?thesis by (simp add: call_thunk_def arrayToThunk_def)
qed

lemma gen_next_sealed: "sealed f fr st \<Longrightarrow> sealed f fr (snd (gen_next step v st))"
  by (simp add: gen_next_def sealed_def Let_def split: option.splits gres.splits)

lemma gen_throw_sealed: "sealed f fr st \<Longrightarrow> sealed f fr (snd (gen_throw step v st))"
  by (simp add: gen_throw_def sealed_def Let_def split: option.splits gres.splits)

lemma run_next_sealed:
  assumes "sealed f fr st"
  shows "sealed f fr (snd (run_next step v st))"
proof -
  obtain r st1 where g: "gen_next step v st = (r, st1)" by (cases "gen_next step v st")
  then have i: "sealed f fr st1" using gen_next_sealed[OF assms, of step v] by simp
  show ?thesis
  proof (cases r)
    case (Inl e)
    with g i show ?thesis by (simp add: run_next_def)
  next
    case (Inr rt)
    obtain w dn where rt: "rt = Ret w dn" by (cases rt)
    show ?thesis
    proof (cases "toThunk w")
      case (Inl e)
      with g i Inr rt show ?thesis by (simp add: run_next_def)
    next
      case t: (Inr t)
      from call_thunk_sealed[OF i, of t] g i Inr rt t show ?thesis
        by (simp add: run_next_def)
    qed
  qed
qed

lemma run_cb_sealed:
  assumes "sealed f fr st"
  shows "sealed f fr (snd (run_cb step e r st))"
proof (cases "truthy e")
  case False
  then show ?thesis by (simp add: run_cb_def run_next_sealed[OF assms])
next
  case True
  obtain x st1 where g: "gen_throw step e st = (x, st1)" by (cases "gen_throw step e st")
  then have i: "sealed f fr st1" using gen_throw_sealed[OF assms, of step e] by simp
  show ?thesis
  proof (cases x)
    case (Inl a)
    with True g i show ?thesis by (simp add: run_cb_def)
  next
    case (Inr b)
    from run_next_sealed[OF i, of step r] True g Inr show ?thesis
      by (simp add: run_cb_def)
  qed
qed

lemma member_cb_sealed:
  assumes "sealed f fr st" and "f' \<noteq> f"
  shows "sealed f fr (snd (member_cb step f' index e r st))"
proof (cases "f' < length (frames st)")
  case False
  with assms show ?thesis by (simp add: member_cb_def)
next
  case True
  obtain fr' d where md: "member_done (frames st ! f') index e r = (fr', d)"
    by (cases "member_done (frames st ! f') index e r")
  have i: "sealed f fr (st\<lparr>frames := (frames st)[f' := fr']\<rparr>)"
    using assms by (simp add: sealed_def)
  show ?thesis
  proof (cases d)
    case None
    with True md i show ?thesis by (simp add: member_cb_def)
  next
    case (Some c)
    obtain e' r' where c: "c = (e', r')" by (cases c)
    from run_cb_sealed[OF i, of step e' r'] True md Some c show ?thesis
      by (simp add: member_cb_def)
  qed
qed

lemma complete_sealed:
  assumes "sealed f fr st" and "complete step p st = Some (e, st')"
  shows "sealed f fr st'"
proof -
  let ?st1 = "st\<lparr>inflight := remove1 p (inflight st)\<rparr>"
  from assms(2) have p: "p \<in> set (inflight st)" by (simp add: complete_def split: if_splits)
  have i: "sealed f fr ?st1"
    using assms(1) by (auto simp: sealed_def list_all_iff dest: notin_set_remove1)
  from assms(1) p have u: "unrelated f p" by (simp add: sealed_def list_all_iff)
  show ?thesis
  proof (cases "op_cb p")
    case RunCb
    from run_cb_sealed[OF i, of step "op_err p" "op_res p"] assms(2) RunCb p
    show ?thesis by (auto simp: complete_def)
  next
    case (MemberCb f' index)
    with u have "f' \<noteq> f" by (simp add: unrelated_def)
    from member_cb_sealed[OF i this, of step index "op_err p" "op_res p"] assms(2) MemberCb p
    show ?thesis by (auto simp: complete_def)
  qed
qed

lemma reaches_sealed: "reaches step st st'' \<Longrightarrow> sealed f fr st \<Longrightarrow> sealed f fr st''"
  by (induction rule: reaches.induct) (auto intro: complete_sealed)

lemma reaches_nothing_in_flight: "reaches step st st'' \<Longrightarrow> inflight st = [] \<Longrightarrow> st'' = st"
  by (induction rule: reaches.induct) (auto simp: complete_def)

text \<open>
  C9, as stated, fails. The generator \<open>leftover\<close> yields two reads that both fail. The
  first failure is injected and caught, and the generator goes on to yield \<open>[]\<close>: \<open>next\<close>
  makes the aggregate call on the empty array and the generator is suspended there, with
  the second read still in flight. When that read fails, its callback calls \<open>done\<close> of the
  first aggregate call again, and \<open>gen.throw\<close> resumes the generator that yielded the empty
  array.
\<close>

theorem C9_leftover_member_resumes_generator:
  "complete leftover (member_at 0 two_missing 0) (snd (run leftover AtStart)) =
     Some (None,
           \<lparr>gen = Some AtEmpty,
            inflight = [member_at 0 two_missing 1],
            frames = [new_frame two_missing, new_frame []],
            log = [GenNext VUndefined, Started 1, Started 2, GenThrow (VErr ''E1''),
                   GenNext VUndefined]\<rparr>) \<and>
   complete leftover (member_at 0 two_missing 1)
       \<lparr>gen = Some AtEmpty,
        inflight = [member_at 0 two_missing 1],
        frames = [new_frame two_missing, new_frame []],
        log = [GenNext VUndefined, Started 1, Started 2, GenThrow (VErr ''E1''),
               GenNext VUndefined]\<rparr> =
     Some (None,
           \<lparr>gen = None,
            inflight = [],
            frames = [new_frame two_missing, new_frame []],
            log = [GenNext VUndefined, Started 1, Started 2, GenThrow (VErr ''E1''),
                   GenNext VUndefined, GenThrow (VErr ''E2''), GenNext VUndefined]\<rparr>)"
  by (simp add: run_def init_rstate_def run_next_def gen_next_def toThunk_def call_thunk_def
        arrayToThunk_def start_op_def complete_def run_cb_def gen_throw_def member_cb_def
        member_done_def member_at_def member_op_def two_missing_def new_frame_def)

text \<open>
  C9 as amended: when \<open>next\<close> receives the empty array from \<open>gen.next\<close>, it makes the
  aggregate call, which starts nothing and does not call \<open>done\<close>: \<open>pending\<close> is \<open>0\<close> from
  the start, no operation is added to those in flight, and the generator stays suspended.
  That call never calls \<open>done\<close> later either: in every state that completions lead to, its
  frame is as it was made and no operation in flight reports to it. The only operations
  that can complete afterwards are those that were in flight before the yield; when there
  is none, as after \<open>run\<close> or after the completion of a single thunk, no completion can
  happen, the state never changes again and the generator is never resumed.
\<close>

theorem C9_empty_array_never_completes:
  assumes "gen st = Some g" and "step g (Next incoming) = Yielded (VArr []) g'"
  shows "run_next step incoming st =
           (None, st\<lparr>log := log st @ [GenNext incoming], gen := Some g',
                     frames := frames st @ [new_frame []]\<rparr>) \<and>
         pending (new_frame []) = 0 \<and>
         (p \<notin> set (inflight st) \<longrightarrow>
            complete step p (snd (run_next step incoming st)) = None) \<and>
         (list_all (unrelated (length (frames st))) (inflight st) \<and>
          reaches step (snd (run_next step incoming st)) st'' \<longrightarrow>
            sealed (length (frames st)) (new_frame []) st'') \<and>
         (inflight st = [] \<and> reaches step (snd (run_next step incoming st)) st'' \<longrightarrow>
            st'' = snd (run_next step incoming st))"
proof -
  let ?st' = "st\<lparr>log := log st @ [GenNext incoming], gen := Some g',
                 frames := frames st @ [new_frame []]\<rparr>"
  have r: "run_next step incoming st = (None, ?st')"
    using assms
    by (simp add: run_next_def gen_next_def toThunk_def call_thunk_def arrayToThunk_def)
  have p0: "pending (new_frame []) = 0" by (simp add: new_frame_def)
  have c: "p \<notin> set (inflight st) \<longrightarrow> complete step p (snd (run_next step incoming st)) = None"
    by (simp add: r complete_def)
  have s: "list_all (unrelated (length (frames st))) (inflight st) \<and>
          reaches step (snd (run_next step incoming st)) st'' \<longrightarrow>
            sealed (length (frames st)) (new_frame []) st''"
  proof
    assume h: "list_all (unrelated (length (frames st))) (inflight st) \<and>
          reaches step (snd (run_next step incoming st)) st''"
    then have "sealed (length (frames st)) (new_frame []) ?st'" by (simp add: sealed_def)
    moreover from h have "reaches step ?st' st''" by (simp add: r)
    ultimately show "sealed (length (frames st)) (new_frame []) st''"
      by (rule reaches_sealed[rotated])
  qed
  have n: "inflight st = [] \<and> reaches step (snd (run_next step incoming st)) st'' \<longrightarrow>
            st'' = snd (run_next step incoming st)"
  proof
    assume h: "inflight st = [] \<and> reaches step (snd (run_next step incoming st)) st''"
    then have "reaches step ?st' st''" and "inflight ?st' = []" by (simp_all add: r)
    then have "st'' = ?st'" by (rule reaches_nothing_in_flight)
    then show "st'' = snd (run_next step incoming st)" by (simp add: r)
  qed
  from r p0 c s n show ?thesis by blast
qed

text \<open>C9 as amended, at an input: \<open>run\<close> on a generator whose first yield is \<open>[]\<close>.\<close>

theorem C9_empty_array_never_completes_witness:
  "gen (init_rstate False) = Some False \<and>
   one_shot (VArr []) False (Next VUndefined) = Yielded (VArr []) True \<and>
   run_next (one_shot (VArr [])) VUndefined (init_rstate False) =
     (None, \<lparr>gen = Some True, inflight = [], frames = [new_frame []],
             log = [GenNext VUndefined]\<rparr>) \<and>
   pending (new_frame []) = 0 \<and>
   missing_read \<notin> set (inflight (init_rstate False :: bool rstate)) \<and>
   complete (one_shot (VArr [])) missing_read
     (snd (run_next (one_shot (VArr [])) VUndefined (init_rstate False))) = None \<and>
   list_all (unrelated (length (frames (init_rstate False :: bool rstate))))
     (inflight (init_rstate False :: bool rstate)) \<and>
   inflight (init_rstate False :: bool rstate) = [] \<and>
   reaches (one_shot (VArr []))
     (snd (run_next (one_shot (VArr [])) VUndefined (init_rstate False)))
     \<lparr>gen = Some True, inflight = [], frames = [new_frame []], log = [GenNext VUndefined]\<rparr> \<and>
   sealed 0 (new_frame [])
     \<lparr>gen = Some True, inflight = [], frames = [new_frame []],
      log = [GenNext VUndefined] :: revent list\<rparr>"
proof -
  have h: "gen (init_rstate False) = Some False"
    "one_shot (VArr []) False (Next VUndefined) = Yielded (VArr []) True"
    by (simp_all add: init_rstate_def)
  have r: "snd (run_next (one_shot (VArr [])) VUndefined (init_rstate False)) =
     \<lparr>gen = Some True, inflight = [], frames = [new_frame []], log = [GenNext VUndefined]\<rparr>"
    by (simp add: run_next_def gen_next_def toThunk_def call_thunk_def arrayToThunk_def
          init_rstate_def)
  have re: "reaches (one_shot (VArr []))
     (snd (run_next (one_shot (VArr [])) VUndefined (init_rstate False)))
     \<lparr>gen = Some True, inflight = [], frames = [new_frame []], log = [GenNext VUndefined]\<rparr>"
    unfolding r by (rule reaches_here)
  from C9_empty_array_never_completes
         [where step = "one_shot (VArr [])" and st = "init_rstate False" and g = False
            and g' = True and incoming = VUndefined and p = missing_read
            and st'' = "\<lparr>gen = Some True, inflight = [], frames = [new_frame []],
                         log = [GenNext VUndefined]\<rparr>", OF h] h re
  show ?thesis by (simp add: init_rstate_def complete_def)
qed

subsection \<open>C10: a work item that is neither a function nor an array\<close>

text \<open>
  What \<open>next\<close> does with a value from \<open>gen.next\<close> that is neither a function nor an array:
  it ends with the \<open>Error\<close> of \<open>toThunk\<close> escaping; nothing is started, \<open>gen.throw\<close> is not
  called, and the generator stays suspended with no operation in flight for that value.
  The error escapes in the same way from the completion callback that called \<open>next\<close>, and
  from \<open>run\<close> when the value is the first one yielded.
\<close>

lemma next_refuses_bad_work_item:
  assumes "gen st = Some g" and "step g (Next incoming) = Yielded w g'"
      and "\<not> is_thunk w" and "\<not> is_array w"
  shows "run_next step incoming st =
           (Some (VErr ''We are only thunking arrays and functions''),
            st\<lparr>log := log st @ [GenNext incoming], gen := Some g'\<rparr>) \<and>
         (\<not> truthy err \<longrightarrow> run_cb step err incoming st = run_next step incoming st) \<and>
         (st = init_rstate g \<and> incoming = VUndefined \<longrightarrow> run step g = run_next step incoming st)"
  using assms
  by (cases w) (simp_all add: run_next_def gen_next_def toThunk_def run_cb_def run_def)

lemma run_refuses_42:
  "run (one_shot (VNum 42)) False =
     (Some (VErr ''We are only thunking arrays and functions''),
      \<lparr>gen = Some True, inflight = [], frames = [], log = [GenNext VUndefined]\<rparr>)"
  by (simp add: run_def run_next_def gen_next_def toThunk_def init_rstate_def)

text \<open>
  C10 says that every yielded value that is neither a function nor an array makes
  \<open>toThunk\<close> throw, and that the generator is not resumed for it. The callback of \<open>next\<close>,
  \<open>if (err) gen.throw(err); next(result);\<close>, drops what \<open>gen.throw\<close> returns: a value
  yielded in answer to the injected error never reaches \<open>toThunk\<close>. Here the generator
  \<open>recovering\<close> catches the error of its first read and yields \<open>42\<close> from its \<open>catch\<close>
  block: \<open>toThunk\<close> would refuse \<open>42\<close>, but no error escapes, and \<open>gen.next(undefined)\<close>
  resumes the generator at that yield.
\<close>

theorem C10_value_yielded_after_throw_skips_toThunk:
  "toThunk (VNum 42) = Inl (VErr ''We are only thunking arrays and functions'') \<and>
   run recovering Entry =
     (None, \<lparr>gen = Some InTry, inflight = [missing_read], frames = [],
             log = [GenNext VUndefined, Started 1]\<rparr>) \<and>
   gen_throw recovering (VErr ''ENOENT'')
       \<lparr>gen = Some InTry, inflight = [], frames = [], log = [GenNext VUndefined, Started 1]\<rparr> =
     (Inr (Ret (VNum 42) False),
      \<lparr>gen = Some InCatch, inflight = [], frames = [],
       log = [GenNext VUndefined, Started 1, GenThrow (VErr ''ENOENT'')]\<rparr>) \<and>
   complete recovering missing_read (snd (run recovering Entry)) =
     Some (None,
           \<lparr>gen = None, inflight = [], frames = [],
            log = [GenNext VUndefined, Started 1, GenThrow (VErr ''ENOENT''),
                   GenNext VUndefined]\<rparr>)"
  by (simp add: run_def init_rstate_def run_next_def gen_next_def toThunk_def call_thunk_def
        start_op_def complete_def run_cb_def gen_throw_def missing_read_def)

subsection \<open>C2: the completion callback of the runner\<close>

lemma run_cb_after_caught_error:
  assumes "truthy err" and "gen st = Some g" and "step g (Inject err) = Yielded w g'"
  shows "run_cb step err result st =
           run_next step result (st\<lparr>log := log st @ [GenThrow err], gen := Some g'\<rparr>)"
  using assms by (simp add: run_cb_def gen_throw_def)

text \<open>
  C2 says that a completion resumes the generator once: with \<open>gen.throw\<close> on an error, with
  \<open>gen.next\<close> otherwise. The callback is \<open>if (err) gen.throw(err); next(result);\<close> with no
  \<open>return\<close>: when the generator catches the injected error and yields again, \<open>next\<close>
  resumes it a second time, with \<open>result\<close>. Here the generator \<open>catching\<close> is run and its
  first read fails: \<open>gen.throw\<close> leaves the generator suspended at the yield of its
  \<open>catch\<close> block, \<open>gen.next(undefined)\<close> follows in the same callback, the generator ends,
  and the read that the \<open>catch\<close> block yielded is never started.
\<close>

theorem C2_caught_failure_resumes_twice:
  "run catching Entry =
     (None, \<lparr>gen = Some InTry, inflight = [missing_read], frames = [],
             log = [GenNext VUndefined, Started 1]\<rparr>) \<and>
   gen_throw catching (VErr ''ENOENT'')
       \<lparr>gen = Some InTry, inflight = [], frames = [], log = [GenNext VUndefined, Started 1]\<rparr> =
     (Inr (Ret (VFun 2 VNull (VStr ''fallback'')) False),
      \<lparr>gen = Some InCatch, inflight = [], frames = [],
       log = [GenNext VUndefined, Started 1, GenThrow (VErr ''ENOENT'')]\<rparr>) \<and>
   complete catching missing_read (snd (run catching Entry)) =
     Some (None,
           \<lparr>gen = None, inflight = [], frames = [],
            log = [GenNext VUndefined, Started 1, GenThrow (VErr ''ENOENT''),
                   GenNext VUndefined]\<rparr>)"
  by (simp add: run_def init_rstate_def run_next_def gen_next_def toThunk_def call_thunk_def
        start_op_def complete_def run_cb_def gen_throw_def missing_read_def)

end
